theory Spec2Isabelle
  imports Complex_Main
begin

section \<open>Shared data model: blocks and the editor's collaborators\<close>

text \<open>
  A Block of the editor as the three engines see it: a stable identity, the
  \<open>selected\<close> flag, the texts of its focusable inputs in document order, and the
  position of the input that holds focus (\<open>None\<close> is JavaScript's \<open>undefined\<close>).
\<close>

record block =
  bid :: nat
  selected :: bool
  inputs :: "string list"
  currentInput :: "nat option"

text \<open>
  The native text selection (\<open>window.getSelection()\<close>): no range at all, a collapsed
  range (the caret, inside an input of a block at an offset), or an expanded range.
\<close>

datatype native_selection = NoRange | CaretAt nat nat nat | Expanded

text \<open>
  What every module reaches through \<open>this.Editor\<close>: the ordered block list of the
  BlockManager with its current index (\<open>-1\<close> when no block is current), the two
  toolbars' opened flags, and the native selection.
\<close>

record editor =
  blocks :: "block list"
  currentBlockIndex :: int
  toolbarOpened :: bool
  inlineToolbarOpened :: bool
  nativeSelection :: native_selection

text \<open>A fault of the JavaScript runtime: reading a property of \<open>undefined\<close>.\<close>

datatype error = TypeError

text \<open>
  \<open>block.selected = v\<close> on a Block reference. A reference is modelled by the block's
  position in \<open>BlockManager.blocks\<close>; no handler of the selection engines inserts or
  removes blocks, so the position identifies the block.
\<close>

definition setBlockSelected :: "nat \<Rightarrow> bool \<Rightarrow> block list \<Rightarrow> block list" where
  "setBlockSelected b v bs = bs[b := (bs ! b)\<lparr>selected := v\<rparr>]"

text \<open>
  \<open>BlockManager.blocks[i].selected = v\<close> with a numeric index: outside the array the
  element is \<open>undefined\<close> and the assignment throws.
\<close>

definition setSelectedAt :: "int \<Rightarrow> bool \<Rightarrow> block list \<Rightarrow> error + block list" where
  "setSelectedAt i v bs =
     (if 0 \<le> i \<and> i < int (length bs) then Inr (setBlockSelected (nat i) v bs)
      else Inl TypeError)"

text \<open>\<open>for (let i = lo; i <= hi; i++) body(i)\<close>, stopping at the first fault.\<close>

function for_upto :: "int \<Rightarrow> int \<Rightarrow> (int \<Rightarrow> 'a \<Rightarrow> error + 'a) \<Rightarrow> 'a \<Rightarrow> error + 'a" where
  "for_upto i hi body s =
     (if i \<le> hi
      then (case body i s of Inl e \<Rightarrow> Inl e | Inr s' \<Rightarrow> for_upto (i + 1) hi body s')
      else Inr s)"
  by pat_completeness auto
termination
  by (relation "measure (\<lambda>(i, hi, body, s). nat (hi + 1 - i))") auto

declare for_upto.simps [simp del]

text \<open>The positions of the blocks whose \<open>selected\<close> flag is set.\<close>

definition selectedIndices :: "block list \<Rightarrow> nat list" where
  "selectedIndices bs = filter (\<lambda>i. selected (bs ! i)) [0..<length bs]"

section \<open>Cross-block selection engine\<close>

text \<open>
  A DOM node as the engine's lookups see it: inside the holder of the block at a
  position, or outside every block. An event's \<open>target\<close> and \<open>relatedTarget\<close> are a
  node or \<open>null\<close> (\<open>None\<close>).
\<close>

datatype node = InBlock nat | Elsewhere

record mouse_event =
  button :: nat
  target :: "node option"
  relatedTarget :: "node option"

definition LEFT :: nat where
  "LEFT = 0"

text \<open>
  Modelled from the spec: \<open>BlockManager.getBlockByChildNode\<close>, \<open>getBlock\<close>,
  \<open>getBlockIndex\<close> and \<open>blocks.indexOf\<close> are not among the sources. The spec's Block
  Registry "exposes lookup by index, by DOM node": a node inside a block's holder
  resolves to that block, any other node (or \<open>null\<close>) to \<open>undefined\<close>; the index of an
  unknown block is \<open>-1\<close>.
\<close>

definition getBlockByChildNode :: "block list \<Rightarrow> node option \<Rightarrow> nat option" where
  "getBlockByChildNode bs n =
     (case n of
        Some (InBlock i) \<Rightarrow> if i < length bs then Some i else None
      | _ \<Rightarrow> None)"

definition getBlock :: "block list \<Rightarrow> node option \<Rightarrow> nat option" where
  "getBlock bs n = getBlockByChildNode bs n"

definition indexOf :: "block list \<Rightarrow> nat \<Rightarrow> int" where
  "indexOf bs b = (if b < length bs then int b else -1)"

definition getBlockIndex :: "block list \<Rightarrow> nat option \<Rightarrow> int" where
  "getBlockIndex bs b = (case b of Some i \<Rightarrow> indexOf bs i | None \<Rightarrow> -1)"

record crossBlockSelection = editor +
  firstSelectedBlock :: "nat option"
  firstSelectedBlockIndex :: int
  lastSelectedBlock :: "nat option"
  endSelectedBlockIndex :: int
  watching :: bool

text \<open>\<open>watchSelection\<close>: arming on a primary-button pointer-down.\<close>

definition watchSelection :: "mouse_event \<Rightarrow> 'a crossBlockSelection_scheme \<Rightarrow> 'a crossBlockSelection_scheme" where
  "watchSelection event s =
     (if button event \<noteq> LEFT then s
      else
        let fb = getBlock (blocks s) (target event)
        in s\<lparr>firstSelectedBlock := fb,
             firstSelectedBlockIndex := getBlockIndex (blocks s) fb,
             endSelectedBlockIndex := getBlockIndex (blocks s) fb,
             lastSelectedBlock := fb,
             watching := True\<rparr>)"

definition onMouseUp :: "'a crossBlockSelection_scheme \<Rightarrow> 'a crossBlockSelection_scheme" where
  "onMouseUp s = s\<lparr>watching := False\<rparr>"

subsection \<open>Range reconciliation, whole-range resync variant (unnamed/part\_002)\<close>

definition toggleBlocksSelectedState ::
  "nat \<Rightarrow> 'a crossBlockSelection_scheme \<Rightarrow> error + 'a crossBlockSelection_scheme" where
  "toggleBlocksSelectedState targetBlock s =
     (let targetIndex = indexOf (blocks s) targetBlock;
          f = firstSelectedBlockIndex s;
          e = endSelectedBlockIndex s;
          newBeginIndex = min targetIndex f;
          newEndIndex = max targetIndex f
      in case for_upto (min f e) (max f e)
                (\<lambda>i bs. if i < newBeginIndex \<or> i > newEndIndex
                         then setSelectedAt i False bs else Inr bs)
                (blocks s) of
           Inl err \<Rightarrow> Inl err
         | Inr bs1 \<Rightarrow>
             (case for_upto (min f targetIndex) (max f targetIndex)
                     (\<lambda>i. setSelectedAt i True) bs1 of
                Inl err \<Rightarrow> Inl err
              | Inr bs2 \<Rightarrow> Inr (s\<lparr>blocks := bs2, endSelectedBlockIndex := targetIndex\<rparr>)))"

definition onMouseOver ::
  "mouse_event \<Rightarrow> 'a crossBlockSelection_scheme \<Rightarrow> error + 'a crossBlockSelection_scheme" where
  "onMouseOver event s =
     (if relatedTarget event = None \<and> target event = None then Inr s
      else
        let relatedBlock =
              (case getBlockByChildNode (blocks s) (relatedTarget event) of
                 Some b \<Rightarrow> Some b
               | None \<Rightarrow> lastSelectedBlock s);
            targetBlock = getBlockByChildNode (blocks s) (target event)
        in case (relatedBlock, targetBlock) of
             (Some r, Some t) \<Rightarrow>
               if t = r then Inr s
               else if firstSelectedBlock s = Some r then
                 Inr (s\<lparr>nativeSelection := NoRange,
                        blocks := setBlockSelected t True (setBlockSelected r True (blocks s))\<rparr>)
               else if firstSelectedBlock s = Some t then
                 (let bs0 = setBlockSelected t False (setBlockSelected r False (blocks s));
                      f = firstSelectedBlockIndex s;
                      e = endSelectedBlockIndex s
                  in case (if f \<noteq> e
                           then for_upto (min f e) (max f e) (\<lambda>i. setSelectedAt i False) bs0
                           else Inr bs0) of
                       Inl err \<Rightarrow> Inl err
                     | Inr bs1 \<Rightarrow> Inr (s\<lparr>blocks := bs1\<rparr>))
               else
                 (case toggleBlocksSelectedState t (s\<lparr>inlineToolbarOpened := False\<rparr>) of
                    Inl err \<Rightarrow> Inl err
                  | Inr s' \<Rightarrow> Inr (s'\<lparr>lastSelectedBlock := Some t\<rparr>))
           | _ \<Rightarrow> Inr s)"

text \<open>A sequence of \<open>mouseover\<close> events, handled in order; a fault ends the run.\<close>

fun onMouseOver_all ::
  "mouse_event list \<Rightarrow> 'a crossBlockSelection_scheme \<Rightarrow> error + 'a crossBlockSelection_scheme" where
  "onMouseOver_all [] s = Inr s"
| "onMouseOver_all (ev # evs) s =
     (case onMouseOver ev s of Inl err \<Rightarrow> Inl err | Inr s' \<Rightarrow> onMouseOver_all evs s')"

subsection \<open>Range reconciliation, incremental variant (unnamed/part\_001)\<close>

definition toggleBlocksSelectedState_p001 ::
  "nat \<Rightarrow> nat \<Rightarrow> 'a crossBlockSelection_scheme \<Rightarrow> error + 'a crossBlockSelection_scheme" where
  "toggleBlocksSelectedState_p001 relateBlock targetBlock s =
     (let relateIndex = indexOf (blocks s) relateBlock;
          targetIndex = indexOf (blocks s) targetBlock;
          f = firstSelectedBlockIndex s;
          e = endSelectedBlockIndex s;
          unselect = (\<lambda>i. setSelectedAt i False)
      in case (if targetIndex > f
               then (case (if targetIndex < relateIndex
                           then for_upto (targetIndex + 1) e unselect (blocks s)
                           else Inr (blocks s)) of
                       Inl err \<Rightarrow> Inl err
                     | Inr bs \<Rightarrow>
                         if relateIndex < f then for_upto relateIndex (f - 1) unselect bs
                         else Inr bs)
               else (case (if targetIndex > relateIndex
                           then for_upto e (targetIndex - 1) unselect (blocks s)
                           else Inr (blocks s)) of
                       Inl err \<Rightarrow> Inl err
                     | Inr bs \<Rightarrow>
                         if relateIndex > f then for_upto (f + 1) relateIndex unselect bs
                         else Inr bs)) of
           Inl err \<Rightarrow> Inl err
         | Inr bs1 \<Rightarrow>
             (case for_upto (min f targetIndex) (max f targetIndex)
                     (\<lambda>i. setSelectedAt i True) bs1 of
                Inl err \<Rightarrow> Inl err
              | Inr bs2 \<Rightarrow> Inr (s\<lparr>blocks := bs2, endSelectedBlockIndex := targetIndex\<rparr>)))"

definition onMouseOver_p001 ::
  "mouse_event \<Rightarrow> 'a crossBlockSelection_scheme \<Rightarrow> error + 'a crossBlockSelection_scheme" where
  "onMouseOver_p001 event s =
     (if relatedTarget event = None \<and> target event = None then Inr s
      else
        let relatedBlock =
              (case getBlockByChildNode (blocks s) (relatedTarget event) of
                 Some b \<Rightarrow> Some b
               | None \<Rightarrow> lastSelectedBlock s);
            targetBlock = getBlockByChildNode (blocks s) (target event)
        in case (relatedBlock, targetBlock) of
             (Some r, Some t) \<Rightarrow>
               if t = r then Inr s
               else if firstSelectedBlock s = Some r then
                 Inr (s\<lparr>nativeSelection := NoRange,
                        blocks := setBlockSelected t True (setBlockSelected r True (blocks s))\<rparr>)
               else if firstSelectedBlock s = Some t then
                 (let bs0 = setBlockSelected t False (setBlockSelected r False (blocks s));
                      f = firstSelectedBlockIndex s;
                      e = endSelectedBlockIndex s
                  in case (if f \<noteq> e
                           then for_upto (min f e) (max f e) (\<lambda>i. setSelectedAt i False) bs0
                           else Inr bs0) of
                       Inl err \<Rightarrow> Inl err
                     | Inr bs1 \<Rightarrow> Inr (s\<lparr>blocks := bs1\<rparr>))
               else
                 (case toggleBlocksSelectedState_p001 r t (s\<lparr>inlineToolbarOpened := False\<rparr>) of
                    Inl err \<Rightarrow> Inl err
                  | Inr s' \<Rightarrow> Inr (s'\<lparr>lastSelectedBlock := Some t\<rparr>))
           | _ \<Rightarrow> Inr s)"

fun onMouseOver_all_p001 ::
  "mouse_event list \<Rightarrow> 'a crossBlockSelection_scheme \<Rightarrow> error + 'a crossBlockSelection_scheme" where
  "onMouseOver_all_p001 [] s = Inr s"
| "onMouseOver_all_p001 (ev # evs) s =
     (case onMouseOver_p001 ev s of Inl err \<Rightarrow> Inl err | Inr s' \<Rightarrow> onMouseOver_all_p001 evs s')"

section \<open>Rectangle selection engine (rectangleSelection.ts)\<close>

text \<open>
  What \<open>startSelection\<close> learns about the element under the pointer: the results of its
  three \<open>closest(selector)\<close> queries.
\<close>

record elem =
  insideToolbar :: bool
  insideBlockContent :: bool
  insideInlineToolbar :: bool

text \<open>
  What the \<open>mousedown\<close> handlers read from the event and the DOM. \<open>elementFromPoint\<close>
  may return \<open>null\<close> (\<open>None\<close>).
\<close>

record mousedown_view =
  downButton :: nat
  startedFromContentEditable :: bool
  downPageX :: real
  downPageY :: real
  elemWhereSelectionStart :: "elem option"
  downInnerHeight :: real
  editorVisible :: bool

text \<open>
  What the \<open>mousemove\<close> and \<open>scroll\<close> handlers read from the event and the DOM. A
  scroll event has no \<open>pageX\<close>/\<open>pageY\<close> (\<open>None\<close> is \<open>undefined\<close>). \<open>elementUnderMouse\<close> is
  the hit test at the horizontal centre of the editing column, \<open>offsetWidth\<close> the scroll
  container's width and \<open>contentWidth\<close> the parsed width of the last block's content.
\<close>

record move_view =
  pageX :: "real option"
  pageY :: "real option"
  clientY :: real
  elementUnderMouse :: "node option"
  offsetWidth :: real
  contentWidth :: real
  innerHeight :: real

record rectangleSelection = editor +
  isRectSelectionActivated :: bool
  speedFactory :: real
  speed :: real
  mousedown :: bool
  inScrollZone :: bool
  startX :: real
  startY :: real
  mouseX :: real
  mouseY :: real
  stackOfSelected :: "int list"
  rectCrossesBlocks :: bool
  overlayDisplay :: string
  scrollLeft :: real
  scrollTop :: real
  scrollTopMax :: real
  pendingTimeouts :: "real list"


definition HEIGHT_OF_SCROLL_ZONE :: real where
  "HEIGHT_OF_SCROLL_ZONE = 100"

definition down :: int where
  "down = 1"

definition up :: int where
  "up = -1"

definition undef :: int where
  "undef = 0"

text \<open>
  Modelled from the spec: the \<open>BlockSelection\<close> module is not among the sources. Its
  \<open>selectBlockByIndex\<close>/\<open>unSelectBlockByIndex\<close> set the \<open>selected\<close> flag of the block at an
  index (nothing happens where no block has that index), and assigning
  \<open>allBlocksSelected\<close> sets the flag of every block ("a \<open>selected\<close> flag per block",
  "reset on every mousedown that is not inside the toolbar").
\<close>

definition selectBlockByIndex :: "int \<Rightarrow> block list \<Rightarrow> block list" where
  "selectBlockByIndex i bs =
     (if 0 \<le> i \<and> i < int (length bs) then setBlockSelected (nat i) True bs else bs)"

definition unSelectBlockByIndex :: "int \<Rightarrow> block list \<Rightarrow> block list" where
  "unSelectBlockByIndex i bs =
     (if 0 \<le> i \<and> i < int (length bs) then setBlockSelected (nat i) False bs else bs)"

definition set_allBlocksSelected :: "bool \<Rightarrow> block list \<Rightarrow> block list" where
  "set_allBlocksSelected v bs = map (\<lambda>b. b\<lparr>selected := v\<rparr>) bs"

definition clearSelection :: "'a rectangleSelection_scheme \<Rightarrow> 'a rectangleSelection_scheme" where
  "clearSelection s = s\<lparr>isRectSelectionActivated := False\<rparr>"

definition startSelection ::
  "mousedown_view \<Rightarrow> 'a rectangleSelection_scheme \<Rightarrow> error + 'a rectangleSelection_scheme" where
  "startSelection event s =
     (case elemWhereSelectionStart event of
        None \<Rightarrow> Inl TypeError
      | Some el \<Rightarrow>
          let startsInsideToolbar = insideToolbar el;
              s1 = (if \<not> startsInsideToolbar
                    then (clearSelection (s\<lparr>blocks := set_allBlocksSelected False (blocks s)\<rparr>))
                           \<lparr>stackOfSelected := []\<rparr>
                    else s);
              startsInSelectorToAvoid =
                (insideBlockContent el \<or> insideToolbar el \<or> insideInlineToolbar el)
          in if startsInSelectorToAvoid then Inr s1
             else Inr (s1\<lparr>speedFactory := downInnerHeight event / 768,
                           mousedown := True,
                           startX := downPageX event + scrollLeft s1,
                           startY := downPageY event + scrollTop s1\<rparr>))"

definition endSelection :: "'a rectangleSelection_scheme \<Rightarrow> 'a rectangleSelection_scheme" where
  "endSelection s =
     s\<lparr>speedFactory := 1, mousedown := False, startX := 0, startY := 0,
       overlayDisplay := ''none''\<rparr>"



definition processMouseLeave :: "'a rectangleSelection_scheme \<Rightarrow> 'a rectangleSelection_scheme" where
  "processMouseLeave s = endSelection (clearSelection s)"

definition processMouseUp :: "'a rectangleSelection_scheme \<Rightarrow> 'a rectangleSelection_scheme" where
  "processMouseUp s = endSelection (clearSelection s)"

text \<open>
  \<open>scrollVertical\<close>: the guard on the live drag state, one \<open>scrollBy\<close> (the container
  clamps the offset to its scrollable extent), and the zero-delay timeout that calls
  \<open>scrollVertical\<close> again, kept in \<open>pendingTimeouts\<close> with its speed.
\<close>

definition scrollBy :: "real \<Rightarrow> 'a rectangleSelection_scheme \<Rightarrow> 'a rectangleSelection_scheme" where
  "scrollBy dy s = s\<lparr>scrollTop := min (scrollTopMax s) (max 0 (scrollTop s + dy))\<rparr>"

definition scrollVertical :: "real \<Rightarrow> 'a rectangleSelection_scheme \<Rightarrow> 'a rectangleSelection_scheme" where
  "scrollVertical sp s =
     (if \<not> (inScrollZone s \<and> mousedown s) then s
      else (scrollBy sp s)\<lparr>pendingTimeouts := pendingTimeouts s @ [sp]\<rparr>)"

text \<open>The event loop runs the oldest pending timeout callback.\<close>

definition runTimeout :: "'a rectangleSelection_scheme \<Rightarrow> 'a rectangleSelection_scheme" where
  "runTimeout s =
     (case pendingTimeouts s of
        [] \<Rightarrow> s
      | sp # rest \<Rightarrow> scrollVertical sp (s\<lparr>pendingTimeouts := rest\<rparr>))"

definition scrollByZones :: "move_view \<Rightarrow> 'a rectangleSelection_scheme \<Rightarrow> 'a rectangleSelection_scheme" where
  "scrollByZones mouseEvent s =
     (let distanceFromTop = clientY mouseEvent;
          distanceFromBottom = innerHeight mouseEvent - clientY mouseEvent;
          deltaY = (if distanceFromTop < HEIGHT_OF_SCROLL_ZONE
                    then - (HEIGHT_OF_SCROLL_ZONE - distanceFromTop)
                    else if distanceFromBottom < HEIGHT_OF_SCROLL_ZONE
                    then HEIGHT_OF_SCROLL_ZONE - distanceFromBottom
                    else 0);
          zone = (distanceFromTop < HEIGHT_OF_SCROLL_ZONE \<or> distanceFromBottom < HEIGHT_OF_SCROLL_ZONE);
          s1 = s\<lparr>inScrollZone := zone\<rparr>
      in if \<not> zone then s1
         else scrollVertical ((deltaY / HEIGHT_OF_SCROLL_ZONE) * speed s1 * speedFactory s1) s1)"

text \<open>
  \<open>genInfoForMouseSelection\<close>: the index of the block under the pointer (\<open>None\<close> is
  \<open>undefined\<close>) and the bounds of the content column. Reading the holder of the last block
  faults when there is no block.
\<close>

record mouse_info =
  index :: "int option"
  leftPos :: real
  rightPos :: real

definition genInfoForMouseSelection ::
  "move_view \<Rightarrow> 'a rectangleSelection_scheme \<Rightarrow> error + mouse_info" where
  "genInfoForMouseSelection view s =
     (let widthOfRedactor = offsetWidth view;
          centerOfRedactor = widthOfRedactor / 2;
          blockInCurrentPos = getBlockByChildNode (blocks s) (elementUnderMouse view);
          idx = (case blockInCurrentPos of None \<Rightarrow> None | Some b \<Rightarrow> Some (indexOf (blocks s) b))
      in if blocks s = [] then Inl TypeError
         else
           let centerOfBlock = contentWidth view / 2
           in Inr \<lparr>index = idx,
                   leftPos = centerOfRedactor - centerOfBlock,
                   rightPos = centerOfRedactor + centerOfBlock\<rparr>)"

definition addBlockInSelection :: "int \<Rightarrow> 'a rectangleSelection_scheme \<Rightarrow> 'a rectangleSelection_scheme" where
  "addBlockInSelection i s =
     (let s1 = (if rectCrossesBlocks s then s\<lparr>blocks := selectBlockByIndex i (blocks s)\<rparr> else s)
      in s1\<lparr>stackOfSelected := stackOfSelected s1 @ [i]\<rparr>)"

text \<open>\<open>for (ind; ind <= index; ind++)\<close> and \<open>for (ind; ind >= index; ind--)\<close>.\<close>

function for_up :: "int \<Rightarrow> int \<Rightarrow> (int \<Rightarrow> 'a \<Rightarrow> 'a) \<Rightarrow> 'a \<Rightarrow> 'a" where
  "for_up i hi body s = (if i \<le> hi then for_up (i + 1) hi body (body i s) else s)"
  by pat_completeness auto
termination
  by (relation "measure (\<lambda>(i, hi, body, s). nat (hi + 1 - i))") auto

declare for_up.simps [simp del]

function for_down :: "int \<Rightarrow> int \<Rightarrow> (int \<Rightarrow> 'a \<Rightarrow> 'a) \<Rightarrow> 'a \<Rightarrow> 'a" where
  "for_down i lo body s = (if i \<ge> lo then for_down (i - 1) lo body (body i s) else s)"
  by pat_completeness auto
termination
  by (relation "measure (\<lambda>(i, lo, body, s). nat (i + 1 - lo))") auto

declare for_down.simps [simp del]

text \<open>
  The \<open>while (cmp())\<close> loop of \<open>trySelectNextBlock\<close>: \<open>i\<close> starts at the top of the stack
  and is decremented with every \<open>pop\<close>, so \<open>stackOfSelected[i]\<close> is always the top; on the
  empty stack it is \<open>undefined\<close> and the comparison is false.
\<close>

function pop_while :: "(int \<Rightarrow> bool) \<Rightarrow> 'a rectangleSelection_scheme \<Rightarrow> 'a rectangleSelection_scheme" where
  "pop_while cmp s =
     (if stackOfSelected s \<noteq> [] \<and> cmp (last (stackOfSelected s))
      then pop_while cmp
             ((if rectCrossesBlocks s
               then s\<lparr>blocks := unSelectBlockByIndex (last (stackOfSelected s)) (blocks s)\<rparr>
               else s)\<lparr>stackOfSelected := butlast (stackOfSelected s)\<rparr>)
      else s)"
  by pat_completeness auto
termination
  by (relation "measure (\<lambda>(cmp, s). length (stackOfSelected s))") auto

declare pop_while.simps [simp del]

text \<open>The direction of travel, from the last two stack entries.\<close>

definition direction_of :: "int list \<Rightarrow> int" where
  "direction_of st =
     (let sizeStack = length st
      in if sizeStack > 1
         then (if st ! (sizeStack - 1) - st ! (sizeStack - 2) > 0 then down else up)
         else undef)"

definition trySelectNextBlock :: "int \<Rightarrow> 'a rectangleSelection_scheme \<Rightarrow> 'a rectangleSelection_scheme" where
  "trySelectNextBlock idx s =
     (let st = stackOfSelected s;
          top = (if st = [] then None else Some (last st));
          sameBlock = (top = Some idx)
      in if sameBlock then s
         else
           let direction = direction_of st;
               above = (case top of None \<Rightarrow> False | Some t \<Rightarrow> idx > t);
               below = (case top of None \<Rightarrow> False | Some t \<Rightarrow> idx < t);
               selectionInDownDirection = (above \<and> direction = down);
               selectionInUpDirection = (below \<and> direction = up);
               generalSelection =
                 (selectionInDownDirection \<or> selectionInUpDirection \<or> direction = undef);
               reduction = (\<not> generalSelection)
           in if \<not> reduction \<and> (above \<or> top = None) then
                (let ind = (case top of
                              None \<Rightarrow> idx
                            | Some t \<Rightarrow> if t + 1 = 0 then idx else t + 1)
                 in for_up ind idx addBlockInSelection s)
              else if \<not> reduction \<and> below then
                for_down (the top - 1) idx addBlockInSelection s
              else if \<not> reduction then s
              else pop_while (if above then (\<lambda>v. idx > v) else (\<lambda>v. idx < v)) s)"

definition inverseSelection :: "'a rectangleSelection_scheme \<Rightarrow> 'a rectangleSelection_scheme" where
  "inverseSelection s =
     (let isSelectedMode =
            (case stackOfSelected s of
               [] \<Rightarrow> False
             | i # _ \<Rightarrow> if 0 \<le> i \<and> i < int (length (blocks s))
                        then selected (blocks s ! nat i) else False);
          s1 = (if rectCrossesBlocks s \<and> \<not> isSelectedMode
                then s\<lparr>blocks := fold selectBlockByIndex (stackOfSelected s) (blocks s)\<rparr>
                else s)
      in if \<not> rectCrossesBlocks s1 \<and> isSelectedMode
         then s1\<lparr>blocks := fold unSelectBlockByIndex (stackOfSelected s1) (blocks s1)\<rparr>
         else s1)"

text \<open>
  \<open>changingRectangle\<close>. The overlay's four edge offsets (CSS strings recomputed by
  \<open>shrinkRectangleToPoint\<close> and \<open>updateRectangleSize\<close>) are not part of the state; its
  \<open>display\<close> property is.
\<close>

definition changingRectangle ::
  "move_view \<Rightarrow> 'a rectangleSelection_scheme \<Rightarrow> error + 'a rectangleSelection_scheme" where
  "changingRectangle event s =
     (if \<not> mousedown s then Inr s
      else
        let s1 = s\<lparr>mouseX := (case pageX event of None \<Rightarrow> 0 | Some x \<Rightarrow> x),
                   mouseY := (case pageY event of None \<Rightarrow> 0 | Some y \<Rightarrow> y)\<rparr>
        in case genInfoForMouseSelection event s1 of
             Inl err \<Rightarrow> Inl err
           | Inr info \<Rightarrow>
               let rectIsOnRighSideOfredactor =
                     (startX s1 > rightPos info \<and> mouseX s1 > rightPos info);
                   rectISOnLeftSideOfRedactor =
                     (startX s1 < leftPos info \<and> mouseX s1 < leftPos info);
                   s2 = s1\<lparr>rectCrossesBlocks :=
                              \<not> (rectIsOnRighSideOfredactor \<or> rectISOnLeftSideOfRedactor)\<rparr>;
                   s3 = (if \<not> isRectSelectionActivated s2
                         then s2\<lparr>rectCrossesBlocks := False,
                                 isRectSelectionActivated := True,
                                 overlayDisplay := ''block''\<rparr>
                         else s2);
                   s4 = s3\<lparr>toolbarOpened := False\<rparr>
               in case index info of
                    None \<Rightarrow> Inr s4
                  | Some i \<Rightarrow>
                      Inr ((inverseSelection (trySelectNextBlock i s4))
                             \<lparr>nativeSelection := NoRange\<rparr>))"

definition processMouseMove ::
  "move_view \<Rightarrow> 'a rectangleSelection_scheme \<Rightarrow> error + 'a rectangleSelection_scheme" where
  "processMouseMove mouseEvent s =
     (case changingRectangle mouseEvent s of
        Inl err \<Rightarrow> Inl err
      | Inr s1 \<Rightarrow> Inr (scrollByZones mouseEvent s1))"

definition processScroll ::
  "move_view \<Rightarrow> 'a rectangleSelection_scheme \<Rightarrow> error + 'a rectangleSelection_scheme" where
  "processScroll mouseEvent s = changingRectangle mouseEvent s"

text \<open>A sequence of pointer moves of one drag, handled in order.\<close>

fun processMouseMove_all ::
  "move_view list \<Rightarrow> 'a rectangleSelection_scheme \<Rightarrow> error + 'a rectangleSelection_scheme" where
  "processMouseMove_all [] s = Inr s"
| "processMouseMove_all (ev # evs) s =
     (case processMouseMove ev s of Inl err \<Rightarrow> Inl err | Inr s' \<Rightarrow> processMouseMove_all evs s')"

text \<open>
  What the event loop delivers while a drag is under way: pointer moves, scroll events
  (they run \<open>changingRectangle\<close> too) and the zero-delay timeouts of the autoscroll.
\<close>

datatype drag_event = MouseMove move_view | Scroll move_view | Timeout

definition handle_drag_event ::
  "drag_event \<Rightarrow> 'a rectangleSelection_scheme \<Rightarrow> error + 'a rectangleSelection_scheme" where
  "handle_drag_event e s =
     (case e of
        MouseMove v \<Rightarrow> processMouseMove v s
      | Scroll v \<Rightarrow> processScroll v s
      | Timeout \<Rightarrow> Inr (runTimeout s))"

fun drag_all ::
  "drag_event list \<Rightarrow> 'a rectangleSelection_scheme \<Rightarrow> error + 'a rectangleSelection_scheme" where
  "drag_all [] s = Inr s"
| "drag_all (e # es) s =
     (case handle_drag_event e s of Inl err \<Rightarrow> Inl err | Inr s' \<Rightarrow> drag_all es s')"

section \<open>Block event dispatcher (blockEvents.ts)\<close>

text \<open>
  The dispatcher's view of the editor: whether the handled event's default action was
  prevented, and whether the \<open>then\<close> callback of \<open>handleCommandX\<close> waits for the copy
  promise to settle.
\<close>

record blockEvents = editor +
  defaultPrevented :: bool
  cutAwaitsCopy :: bool

datatype caret_position = START | END

datatype promise_outcome = Fulfilled | Rejected

text \<open>
  Modelled from the spec: the BlockManager, the Caret module, the caret utilities and
  \<open>SelectionUtils\<close> are not among the sources. From the spec's Block Registry ("ordered
  sequence of blocks; exposes lookup by index, by DOM node, current/previous/next block,
  and mutation primitives (insert, remove, merge, split)"), its Block ("an \<open>isEmpty\<close>
  predicate", "one or more focusable text inputs (first/last/current)") and its Selection
  Primitive ("exposes collapsed/expanded state"):
  \<^item> \<open>currentBlock\<close> is the block at \<open>currentBlockIndex\<close> (\<open>undefined\<close> outside the list),
    \<open>previousBlock\<close>/\<open>nextBlock\<close> its neighbours (\<open>null\<close> at the ends);
  \<^item> a block is empty when all its inputs are;
  \<^item> the caret is at the start (end) of an input when the collapsed native range sits in
    that input at offset 0 (at the length of its text);
  \<^item> \<open>removeBlock\<close> deletes the block from the sequence; the current block stays the same
    block (its index moves down by one when the removed block was not after it), and a
    caret inside the removed block is lost;
  \<^item> \<open>Caret.setToBlock\<close> makes the block current and puts the caret at the start of its
    first input or the end of its last input;
  \<^item> \<open>navigatePrevious\<close>/\<open>navigateNext\<close> move to the neighbouring input of the block,
    or to the neighbouring block;
  \<^item> \<open>BlockManager.mergeBlocks\<close> appends the merged block's text to the target's last
    input and removes the merged block.
\<close>

definition currentBlock :: "'a editor_scheme \<Rightarrow> nat option" where
  "currentBlock s =
     (if 0 \<le> currentBlockIndex s \<and> currentBlockIndex s < int (length (blocks s))
      then Some (nat (currentBlockIndex s)) else None)"

definition previousBlock :: "'a editor_scheme \<Rightarrow> nat option" where
  "previousBlock s =
     (if 1 \<le> currentBlockIndex s \<and> currentBlockIndex s - 1 < int (length (blocks s))
      then Some (nat (currentBlockIndex s - 1)) else None)"

definition nextBlock :: "'a editor_scheme \<Rightarrow> nat option" where
  "nextBlock s =
     (if 0 \<le> currentBlockIndex s + 1 \<and> currentBlockIndex s + 1 < int (length (blocks s))
      then Some (nat (currentBlockIndex s + 1)) else None)"

definition isEmpty :: "block \<Rightarrow> bool" where
  "isEmpty b = list_all (\<lambda>t. t = []) (inputs b)"

definition firstInput :: "block \<Rightarrow> nat option" where
  "firstInput b = (if inputs b = [] then None else Some 0)"

definition lastInput :: "block \<Rightarrow> nat option" where
  "lastInput b = (if inputs b = [] then None else Some (length (inputs b) - 1))"

definition isCollapsed :: "native_selection \<Rightarrow> bool" where
  "isCollapsed sel = (sel \<noteq> Expanded)"

definition isCaretAtStartOfInput :: "'a editor_scheme \<Rightarrow> block \<Rightarrow> nat \<Rightarrow> bool" where
  "isCaretAtStartOfInput s b i = (nativeSelection s = CaretAt (bid b) i 0)"

definition isCaretAtEndOfInput :: "'a editor_scheme \<Rightarrow> block \<Rightarrow> nat option \<Rightarrow> bool" where
  "isCaretAtEndOfInput s b inp =
     (case inp of
        None \<Rightarrow> False
      | Some i \<Rightarrow> i < length (inputs b) \<and> nativeSelection s = CaretAt (bid b) i (length (inputs b ! i)))"

definition caretInBlock :: "native_selection \<Rightarrow> block \<Rightarrow> bool" where
  "caretInBlock sel b = (case sel of CaretAt k _ _ \<Rightarrow> k = bid b | _ \<Rightarrow> False)"

definition removeBlock :: "nat \<Rightarrow> 'a editor_scheme \<Rightarrow> 'a editor_scheme" where
  "removeBlock i s =
     (if i < length (blocks s)
      then s\<lparr>blocks := take i (blocks s) @ drop (Suc i) (blocks s),
             currentBlockIndex := (if currentBlockIndex s \<ge> int i
                                   then currentBlockIndex s - 1 else currentBlockIndex s),
             nativeSelection := (if caretInBlock (nativeSelection s) (blocks s ! i)
                                 then NoRange else nativeSelection s)\<rparr>
      else s)"

definition setToBlock :: "nat \<Rightarrow> caret_position \<Rightarrow> 'a editor_scheme \<Rightarrow> 'a editor_scheme" where
  "setToBlock i pos s =
     (if i < length (blocks s)
      then
        let b = blocks s ! i;
            inp = (case pos of START \<Rightarrow> firstInput b | END \<Rightarrow> lastInput b)
        in s\<lparr>blocks := (blocks s)[i := b\<lparr>currentInput := inp\<rparr>],
             currentBlockIndex := int i,
             nativeSelection :=
               (case inp of
                  None \<Rightarrow> NoRange
                | Some k \<Rightarrow> CaretAt (bid b) k
                             (case pos of START \<Rightarrow> 0 | END \<Rightarrow> length (inputs b ! k)))\<rparr>
      else s)"

definition navigatePrevious :: "'a editor_scheme \<Rightarrow> 'a editor_scheme" where
  "navigatePrevious s =
     (case currentBlock s of
        None \<Rightarrow> s
      | Some c \<Rightarrow>
          (case currentInput (blocks s ! c) of
             Some (Suc k) \<Rightarrow>
               s\<lparr>blocks := (blocks s)[c := (blocks s ! c)\<lparr>currentInput := Some k\<rparr>],
                 nativeSelection := CaretAt (bid (blocks s ! c)) k (length (inputs (blocks s ! c) ! k))\<rparr>
           | _ \<Rightarrow> (case previousBlock s of None \<Rightarrow> s | Some p \<Rightarrow> setToBlock p END s)))"

definition navigateNext :: "'a editor_scheme \<Rightarrow> 'a editor_scheme" where
  "navigateNext s =
     (case currentBlock s of
        None \<Rightarrow> s
      | Some c \<Rightarrow>
          (case currentInput (blocks s ! c) of
             Some k \<Rightarrow>
               if Suc k < length (inputs (blocks s ! c))
               then s\<lparr>blocks := (blocks s)[c := (blocks s ! c)\<lparr>currentInput := Some (Suc k)\<rparr>],
                      nativeSelection := CaretAt (bid (blocks s ! c)) (Suc k) 0\<rparr>
               else (case nextBlock s of None \<Rightarrow> s | Some n \<Rightarrow> setToBlock n START s)
           | None \<Rightarrow> (case nextBlock s of None \<Rightarrow> s | Some n \<Rightarrow> setToBlock n START s)))"

definition BlockManager_mergeBlocks :: "nat \<Rightarrow> nat \<Rightarrow> 'a editor_scheme \<Rightarrow> 'a editor_scheme" where
  "BlockManager_mergeBlocks t m s =
     (if t < length (blocks s) \<and> m < length (blocks s) \<and> inputs (blocks s ! t) \<noteq> []
      then
        let tb = blocks s ! t;
            k = length (inputs tb) - 1;
            merged = tb\<lparr>inputs := (inputs tb)[k := inputs tb ! k @ concat (inputs (blocks s ! m))]\<rparr>
        in removeBlock m (s\<lparr>blocks := (blocks s)[t := merged]\<rparr>)
      else s)"

text \<open>
  \<open>mergeBlocks\<close> of the dispatcher: nothing without a last input of the target;
  otherwise the caret goes to the end of that input (\<open>focus(lastInput, false)\<close>), the
  blocks are merged, and the toolbar is closed once the merge has resolved.
\<close>

definition mergeBlocks :: "nat \<Rightarrow> nat \<Rightarrow> 'a blockEvents_scheme \<Rightarrow> 'a blockEvents_scheme" where
  "mergeBlocks targetBlock blockToMerge s =
     (case lastInput (blocks s ! targetBlock) of
        None \<Rightarrow> s
      | Some k \<Rightarrow>
          let tb = blocks s ! targetBlock;
              s1 = s\<lparr>nativeSelection := CaretAt (bid tb) k (length (inputs tb ! k))\<rparr>
          in (BlockManager_mergeBlocks targetBlock blockToMerge s1)\<lparr>toolbarOpened := False\<rparr>)"

text \<open>
  \<open>backspace\<close>. \<open>areBlocksMergeable\<close> (from \<open>utils/blocks\<close>, not among the sources) is a
  parameter: the registry's merge-compatibility check of two blocks.
\<close>

definition backspace ::
  "(block \<Rightarrow> block \<Rightarrow> bool) \<Rightarrow> 'a blockEvents_scheme \<Rightarrow> 'a blockEvents_scheme" where
  "backspace areBlocksMergeable s =
     (case currentBlock s of
        None \<Rightarrow> s
      | Some c \<Rightarrow>
          if \<not> isCollapsed (nativeSelection s) then s
          else
            (case currentInput (blocks s ! c) of
               None \<Rightarrow> s
             | Some i \<Rightarrow>
                 if \<not> isCaretAtStartOfInput s (blocks s ! c) i then s
                 else
                   let s1 = s\<lparr>defaultPrevented := True, toolbarOpened := False\<rparr>;
                       isFirstInputFocused = (Some i = firstInput (blocks s ! c))
                   in if \<not> isFirstInputFocused then navigatePrevious s1
                      else
                        (case previousBlock s1 of
                           None \<Rightarrow> s1
                         | Some p \<Rightarrow>
                             if isEmpty (blocks s1 ! p) then removeBlock p s1
                             else if isEmpty (blocks s1 ! c) then
                               (let s2 = removeBlock c s1
                                in case currentBlock s2 of
                                     None \<Rightarrow> s2
                                   | Some n \<Rightarrow> setToBlock n END s2)
                             else if areBlocksMergeable (blocks s1 ! p) (blocks s1 ! c)
                               then mergeBlocks p c s1
                               else setToBlock p END s1)))"

text \<open>
  \<open>delete\<close>. It reads \<open>currentBlock.currentInput\<close> without a guard on \<open>currentBlock\<close>, which
  faults when no block is current. After the current block is removed, the next block
  (a reference) has moved down to the current block's old position.
\<close>

definition delete ::
  "(block \<Rightarrow> block \<Rightarrow> bool) \<Rightarrow> 'a blockEvents_scheme \<Rightarrow> error + 'a blockEvents_scheme" where
  "delete areBlocksMergeable s =
     (if \<not> isCollapsed (nativeSelection s) then Inr s
      else
        (case currentBlock s of
           None \<Rightarrow> Inl TypeError
         | Some c \<Rightarrow>
             if \<not> isCaretAtEndOfInput s (blocks s ! c) (currentInput (blocks s ! c)) then Inr s
             else
               let s1 = s\<lparr>defaultPrevented := True, toolbarOpened := False\<rparr>;
                   isLastInputFocused = (currentInput (blocks s ! c) = lastInput (blocks s ! c))
               in if \<not> isLastInputFocused then Inr (navigateNext s1)
                  else
                    (case nextBlock s1 of
                       None \<Rightarrow> Inr s1
                     | Some n \<Rightarrow>
                         if isEmpty (blocks s1 ! n) then Inr (removeBlock n s1)
                         else if isEmpty (blocks s1 ! c) then
                           Inr (setToBlock c START (removeBlock c s1))
                         else if areBlocksMergeable (blocks s1 ! c) (blocks s1 ! n)
                           then Inr (mergeBlocks c n s1)
                           else Inr (setToBlock n START s1))))"

text \<open>
  Modelled from the spec: \<open>BlockSelection.anyBlockSelected\<close>, \<open>clearSelection\<close>,
  \<open>BlockManager.removeSelectedBlocks\<close> and \<open>insertDefaultBlockAtIndex\<close> are not among the
  sources. The spec: cut "removes all selected blocks, inserts a default block at the
  resulting position, focuses its start, and clears selection".
\<close>

definition anyBlockSelected :: "'a editor_scheme \<Rightarrow> bool" where
  "anyBlockSelected s = list_ex selected (blocks s)"

definition removeSelectedBlocks :: "'a editor_scheme \<Rightarrow> nat \<times> 'a editor_scheme" where
  "removeSelectedBlocks s =
     (length (takeWhile (\<lambda>b. \<not> selected b) (blocks s)),
      s\<lparr>blocks := filter (\<lambda>b. \<not> selected b) (blocks s)\<rparr>)"

definition defaultBlock :: "block list \<Rightarrow> block" where
  "defaultBlock bs =
     \<lparr>bid = Suc (fold max (map bid bs) 0), selected = False, inputs = [[]], currentInput = None\<rparr>"

definition insertDefaultBlockAtIndex :: "nat \<Rightarrow> 'a editor_scheme \<Rightarrow> 'a editor_scheme" where
  "insertDefaultBlockAtIndex i s =
     s\<lparr>blocks := take i (blocks s) @ [defaultBlock (blocks s)] @ drop i (blocks s),
       currentBlockIndex := int i\<rparr>"

definition BlockSelection_clearSelection :: "'a editor_scheme \<Rightarrow> 'a editor_scheme" where
  "BlockSelection_clearSelection s = s\<lparr>blocks := set_allBlocksSelected False (blocks s)\<rparr>"

text \<open>
  \<open>handleCommandX\<close>. The handler itself only starts the copy and registers its \<open>then\<close>
  callback; \<open>copySettled\<close> is the settling of the promise returned by
  \<open>copySelectedBlocks\<close>, which runs the callback on fulfilment only.
\<close>

definition cutCallback :: "'a blockEvents_scheme \<Rightarrow> 'a blockEvents_scheme" where
  "cutCallback s =
     (let (selectionPositionIndex, s1) = removeSelectedBlocks s;
          s2 = insertDefaultBlockAtIndex selectionPositionIndex s1;
          s3 = setToBlock selectionPositionIndex START s2
      in BlockSelection_clearSelection s3)"

definition handleCommandX :: "'a blockEvents_scheme \<Rightarrow> 'a blockEvents_scheme" where
  "handleCommandX s = (if \<not> anyBlockSelected s then s else s\<lparr>cutAwaitsCopy := True\<rparr>)"

definition copySettled :: "promise_outcome \<Rightarrow> 'a blockEvents_scheme \<Rightarrow> 'a blockEvents_scheme" where
  "copySettled outcome s =
     (if \<not> cutAwaitsCopy s then s
      else
        (case outcome of
           Fulfilled \<Rightarrow> cutCallback (s\<lparr>cutAwaitsCopy := False\<rparr>)
         | Rejected \<Rightarrow> s\<lparr>cutAwaitsCopy := False\<rparr>))"

section \<open>Auxiliary notions for the proofs\<close>

text \<open>\<open>mark P v bs\<close>: the blocks at the positions satisfying \<open>P\<close> get \<open>selected = v\<close>.\<close>

definition mark :: "(int \<Rightarrow> bool) \<Rightarrow> bool \<Rightarrow> block list \<Rightarrow> block list" where
  "mark P v bs = map (\<lambda>i. if P (int i) then (bs ! i)\<lparr>selected := v\<rparr> else bs ! i) [0..<length bs]"

text \<open>
  A pointer path over the blocks: the \<open>mouseover\<close> events of a pointer that moves from
  block \<open>p\<close> through the blocks \<open>qs\<close>, each event leaving the block entered by the one
  before.
\<close>

fun walk_events :: "nat \<Rightarrow> nat list \<Rightarrow> mouse_event list" where
  "walk_events p [] = []"
| "walk_events p (q # qs) =
     \<lparr>button = LEFT, target = Some (InBlock q), relatedTarget = Some (InBlock p)\<rparr> # walk_events q qs"

text \<open>
  The paths of a drag anchored in block \<open>a\<close> that the range statement covers: the pointer
  leaves the anchor only for one of its two neighbours, and in the event right after
  that it does not jump to the other side of the anchor; everywhere else it may jump
  over any number of blocks, go back onto the anchor, or stay in its block. \<open>fresh\<close>
  records that the pointer's block was entered by a range reconciliation.
\<close>

fun tracked_walk :: "nat \<Rightarrow> nat \<Rightarrow> nat \<Rightarrow> bool \<Rightarrow> nat list \<Rightarrow> bool" where
  "tracked_walk n a p fresh [] = True"
| "tracked_walk n a p fresh (q # qs) =
     (q < n \<and>
      (if q = p then tracked_walk n a p fresh qs
       else if p = a then (q = Suc a \<or> a = Suc q) \<and> tracked_walk n a q False qs
       else if q = a then tracked_walk n a q False qs
       else (fresh \<or> (p < a \<longleftrightarrow> q < a)) \<and> tracked_walk n a q True qs))"

text \<open>
  The invariant of such a path: anchor \<open>a\<close>, pointer in block \<open>p\<close>. After a range
  reconciliation the recorded end index is the pointer's block; otherwise the pointer is
  on the anchor or next to it.
\<close>

definition tracked_inv :: "nat \<Rightarrow> nat \<Rightarrow> bool \<Rightarrow> 'a crossBlockSelection_scheme \<Rightarrow> bool" where
  "tracked_inv a p fresh s =
     (firstSelectedBlock s = Some a \<and> firstSelectedBlockIndex s = int a
      \<and> a < length (blocks s) \<and> p < length (blocks s)
      \<and> 0 \<le> endSelectedBlockIndex s \<and> endSelectedBlockIndex s < int (length (blocks s))
      \<and> set (selectedIndices (blocks s)) = (if p = a then {} else {min a p..max a p})
      \<and> (if fresh then endSelectedBlockIndex s = int p else (p = a \<or> p = Suc a \<or> a = Suc p)))"

text \<open>Concrete documents and events for the closed instances below.\<close>

definition mousedown_in :: "nat \<Rightarrow> mouse_event" where
  "mousedown_in a = \<lparr>button = LEFT, target = Some (InBlock a), relatedTarget = None\<rparr>"

definition selection_of :: "error + 'a crossBlockSelection_scheme \<Rightarrow> error + nat list" where
  "selection_of r = (case r of Inl err \<Rightarrow> Inl err | Inr s \<Rightarrow> Inr (selectedIndices (blocks s)))"

definition plain_block :: "nat \<Rightarrow> block" where
  "plain_block i = \<lparr>bid = i, selected = False, inputs = [''text''], currentInput = None\<rparr>"

definition idle_cbs :: "nat \<Rightarrow> crossBlockSelection" where
  "idle_cbs n = \<lparr>blocks = map plain_block [0..<n], currentBlockIndex = -1, toolbarOpened = False,
     inlineToolbarOpened = False, nativeSelection = NoRange,
     firstSelectedBlock = None, firstSelectedBlockIndex = -1, lastSelectedBlock = None,
     endSelectedBlockIndex = -1, watching = False\<rparr>"

text \<open>
  The shape of \<open>stackOfSelected\<close>: a run of adjacent indices going up, or one going
  down, of indices that are not negative.
\<close>

fun ascending :: "int list \<Rightarrow> bool" where
  "ascending (x # y # r) = (y = x + 1 \<and> ascending (y # r))"
| "ascending _ = True"

fun descending :: "int list \<Rightarrow> bool" where
  "descending (x # y # r) = (y = x - 1 \<and> descending (y # r))"
| "descending _ = True"

definition stack_inv :: "int list \<Rightarrow> bool" where
  "stack_inv st = ((ascending st \<or> descending st) \<and> list_all (\<lambda>v. 0 \<le> v) st)"

text \<open>
  A direction reversal: the new index lies against the direction read off the last two
  stack entries. An entry is beyond the new index when it lies on the far side of it,
  seen from the anchor.
\<close>

definition reversal :: "int \<Rightarrow> int list \<Rightarrow> bool" where
  "reversal idx st =
     (st \<noteq> [] \<and> ((direction_of st = down \<and> idx < last st) \<or> (direction_of st = up \<and> idx > last st)))"

definition beyond :: "int \<Rightarrow> int list \<Rightarrow> int \<Rightarrow> bool" where
  "beyond idx st v = (if idx < last st then idx < v else v < idx)"

text \<open>
  The rectangle lies outside the content column on one side: its fixed start edge and
  its moving edge are both right of the column's right bound, or both left of its left
  bound (the two conjunctions of \<open>changingRectangle\<close>).
\<close>

definition rectOutsideColumn :: "real \<Rightarrow> move_view \<Rightarrow> bool" where
  "rectOutsideColumn sx ev =
     (let mx = (case pageX ev of None \<Rightarrow> 0 | Some x \<Rightarrow> x);
          left = offsetWidth ev / 2 - contentWidth ev / 2;
          right = offsetWidth ev / 2 + contentWidth ev / 2
      in (sx > right \<and> mx > right) \<or> (sx < left \<and> mx < left))"

text \<open>The state of \<open>changingRectangle\<close> before the block under the pointer is looked at.\<close>

definition after_geometry :: "move_view \<Rightarrow> 'a rectangleSelection_scheme \<Rightarrow> 'a rectangleSelection_scheme" where
  "after_geometry ev s =
     (let s1 = s\<lparr>mouseX := (case pageX ev of None \<Rightarrow> 0 | Some x \<Rightarrow> x),
                mouseY := (case pageY ev of None \<Rightarrow> 0 | Some y \<Rightarrow> y)\<rparr>
      in if isRectSelectionActivated s
         then s1\<lparr>rectCrossesBlocks := \<not> rectOutsideColumn (startX s) ev, toolbarOpened := False\<rparr>
         else s1\<lparr>rectCrossesBlocks := False, isRectSelectionActivated := True,
                 overlayDisplay := ''block'', toolbarOpened := False\<rparr>)"

text \<open>Concrete rectangle-engine states, pointer moves and pointer-downs.\<close>

definition idle_rect :: "nat \<Rightarrow> rectangleSelection" where
  "idle_rect n = \<lparr>blocks = map plain_block [0..<n], currentBlockIndex = -1, toolbarOpened = False,
     inlineToolbarOpened = False, nativeSelection = NoRange,
     isRectSelectionActivated = False, speedFactory = 1, speed = 4, mousedown = False,
     inScrollZone = False, startX = 0, startY = 0, mouseX = 0, mouseY = 0,
     stackOfSelected = [], rectCrossesBlocks = False, overlayDisplay = ''none'',
     scrollLeft = 0, scrollTop = 0, scrollTopMax = 2000, pendingTimeouts = []\<rparr>"

definition drag_rect :: "real \<Rightarrow> int list \<Rightarrow> rectangleSelection" where
  "drag_rect sx st = (idle_rect 6)\<lparr>mousedown := True, isRectSelectionActivated := True,
     rectCrossesBlocks := True, startX := sx, startY := 50, overlayDisplay := ''block'',
     stackOfSelected := st, blocks := fold selectBlockByIndex st (map plain_block [0..<6])\<rparr>"

definition pressed_rect :: "real \<Rightarrow> rectangleSelection" where
  "pressed_rect sx = (idle_rect 6)\<lparr>mousedown := True, startX := sx, startY := 50\<rparr>"

definition pointer_at :: "real \<Rightarrow> real \<Rightarrow> node \<Rightarrow> move_view" where
  "pointer_at x y n = \<lparr>pageX = Some x, pageY = Some y, clientY = y, elementUnderMouse = Some n,
     offsetWidth = 1000, contentWidth = 600, innerHeight = 768\<rparr>"


definition crosses_after :: "error + 'a rectangleSelection_scheme \<Rightarrow> bool option" where
  "crosses_after r = (case r of Inl err \<Rightarrow> None | Inr s \<Rightarrow> Some (rectCrossesBlocks s))"

definition chains_after :: "error + 'a rectangleSelection_scheme \<Rightarrow> nat option" where
  "chains_after r = (case r of Inl err \<Rightarrow> None | Inr s \<Rightarrow> Some (length (pendingTimeouts s)))"



text \<open>
  Concrete dispatcher states: two one-input blocks with the caret at the start of the
  second, a document without a current block, and a document with two selected blocks;
  a merge-compatibility check that refuses every pair.
\<close>

definition never_mergeable :: "block \<Rightarrow> block \<Rightarrow> bool" where
  "never_mergeable a b = False"

definition text_block :: "nat \<Rightarrow> string \<Rightarrow> block" where
  "text_block i t = \<lparr>bid = i, selected = False, inputs = [t], currentInput = Some 0\<rparr>"

definition two_blocks :: "string \<Rightarrow> string \<Rightarrow> blockEvents" where
  "two_blocks prev cur =
     \<lparr>blocks = [text_block 0 prev, text_block 1 cur], currentBlockIndex = 1,
      toolbarOpened = True, inlineToolbarOpened = False, nativeSelection = CaretAt 1 0 0,
      defaultPrevented = False, cutAwaitsCopy = False\<rparr>"

definition no_current_block :: blockEvents where
  "no_current_block =
     \<lparr>blocks = [text_block 0 ''abc''], currentBlockIndex = -1,
      toolbarOpened = False, inlineToolbarOpened = False, nativeSelection = NoRange,
      defaultPrevented = False, cutAwaitsCopy = False\<rparr>"

definition selected_pair :: blockEvents where
  "selected_pair =
     \<lparr>blocks = [text_block 0 ''a'', (text_block 1 ''b'')\<lparr>selected := True\<rparr>,
                 (text_block 2 ''c'')\<lparr>selected := True\<rparr>],
      currentBlockIndex = 1,
      toolbarOpened = False, inlineToolbarOpened = False, nativeSelection = NoRange,
      defaultPrevented = False, cutAwaitsCopy = False\<rparr>"

definition block_count :: "'a editor_scheme \<Rightarrow> nat" where
  "block_count s = length (blocks s)"

section \<open>Cross-block selection: range reconciliation\<close>

lemma length_mark [simp]: "length (mark P v bs) = length bs"
  by (simp add: mark_def)

lemma nth_mark [simp]:
  "i < length bs \<Longrightarrow> mark P v bs ! i = (if P (int i) then (bs ! i)\<lparr>selected := v\<rparr> else bs ! i)"
  by (simp add: mark_def)

lemma mark_cong:
  "(\<And>i. i < length bs \<Longrightarrow> P (int i) = Q (int i)) \<Longrightarrow> mark P v bs = mark Q v bs"
  by (simp add: mark_def)

lemma mark_none: "(\<And>i. i < length bs \<Longrightarrow> \<not> P (int i)) \<Longrightarrow> mark P v bs = bs"
  by (rule nth_equalityI) simp_all

lemma mark_mark: "mark P v (mark Q v bs) = mark (\<lambda>j. P j \<or> Q j) v bs"
  by (rule nth_equalityI) simp_all

lemma setBlockSelected_mark:
  "setBlockSelected b v bs = mark (\<lambda>j. j = int b) v bs"
  by (rule nth_equalityI) (auto simp: setBlockSelected_def nth_list_update)

lemma for_upto_mark:
  "(lo \<le> hi \<Longrightarrow> 0 \<le> lo \<and> hi < int (length bs)) \<Longrightarrow>
   for_upto lo hi (\<lambda>i bs. if C i then setSelectedAt i v bs else Inr bs) bs
     = Inr (mark (\<lambda>j. lo \<le> j \<and> j \<le> hi \<and> C j) v bs)"
proof (induction "nat (hi + 1 - lo)" arbitrary: lo bs)
  case 0
  then have "\<not> lo \<le> hi" by simp
  then show ?case
    by (subst for_upto.simps) (simp add: mark_none)
next
  case (Suc k)
  then have le: "lo \<le> hi" and bnd: "0 \<le> lo" "hi < int (length bs)" by auto
  let ?b1 = "if C lo then mark (\<lambda>j. j = lo) v bs else bs"
  have body: "(if C lo then setSelectedAt lo v bs else Inr bs) = Inr ?b1"
    using le bnd by (auto simp: setSelectedAt_def setBlockSelected_mark)
  have k: "k = nat (hi + 1 - (lo + 1))" using Suc.hyps(2) by simp
  have len: "length ?b1 = length bs" by simp
  have ih: "for_upto (lo + 1) hi (\<lambda>i bs. if C i then setSelectedAt i v bs else Inr bs) ?b1
              = Inr (mark (\<lambda>j. lo + 1 \<le> j \<and> j \<le> hi \<and> C j) v ?b1)"
    by (rule Suc.hyps(1)[OF k]) (use bnd in \<open>simp only: len; simp\<close>)
  have "mark (\<lambda>j. lo + 1 \<le> j \<and> j \<le> hi \<and> C j) v ?b1 = mark (\<lambda>j. lo \<le> j \<and> j \<le> hi \<and> C j) v bs"
  proof (cases "C lo")
    case True
    then show ?thesis using le by (auto simp: mark_mark intro!: mark_cong)
  next
    case False
    have "(lo + 1 \<le> int i \<and> int i \<le> hi \<and> C (int i)) = (lo \<le> int i \<and> int i \<le> hi \<and> C (int i))" for i
    proof (cases "int i = lo")
      case True
      with False show ?thesis by simp
    next
      case False
      then show ?thesis by auto
    qed
    then have "mark (\<lambda>j. lo + 1 \<le> j \<and> j \<le> hi \<and> C j) v bs = mark (\<lambda>j. lo \<le> j \<and> j \<le> hi \<and> C j) v bs"
      by (intro mark_cong)
    then show ?thesis using False by simp
  qed
  with ih body le show ?case
    by (subst for_upto.simps) simp
qed

lemma for_upto_mark_all:
  "(lo \<le> hi \<Longrightarrow> 0 \<le> lo \<and> hi < int (length bs)) \<Longrightarrow>
   for_upto lo hi (\<lambda>i. setSelectedAt i v) bs = Inr (mark (\<lambda>j. lo \<le> j \<and> j \<le> hi) v bs)"
  using for_upto_mark[where C = "\<lambda>_. True"] by simp

lemma set_selectedIndices:
  "set (selectedIndices bs) = {i. i < length bs \<and> selected (bs ! i)}"
  by (auto simp: selectedIndices_def)

lemma selected_mark:
  "set (selectedIndices (mark P v bs)) =
     (if v then set (selectedIndices bs) \<union> {i. i < length bs \<and> P (int i)}
      else set (selectedIndices bs) - {i. P (int i)})"
  by (auto simp: set_selectedIndices split: if_splits)

lemma toggle_resync:
  assumes t: "t < length (blocks s)"
    and f: "0 \<le> firstSelectedBlockIndex s" "firstSelectedBlockIndex s < int (length (blocks s))"
    and e: "0 \<le> endSelectedBlockIndex s" "endSelectedBlockIndex s < int (length (blocks s))"
  shows "\<exists>s'. toggleBlocksSelectedState t s = Inr s'
           \<and> length (blocks s') = length (blocks s)
           \<and> endSelectedBlockIndex s' = int t
           \<and> firstSelectedBlock s' = firstSelectedBlock s
           \<and> firstSelectedBlockIndex s' = firstSelectedBlockIndex s
           \<and> set (selectedIndices (blocks s')) =
               (set (selectedIndices (blocks s))
                  - {i. min (firstSelectedBlockIndex s) (endSelectedBlockIndex s) \<le> int i
                        \<and> int i \<le> max (firstSelectedBlockIndex s) (endSelectedBlockIndex s)
                        \<and> (int i < min (int t) (firstSelectedBlockIndex s)
                             \<or> int i > max (int t) (firstSelectedBlockIndex s))})
               \<union> {i. i < length (blocks s) \<and> min (firstSelectedBlockIndex s) (int t) \<le> int i
                        \<and> int i \<le> max (firstSelectedBlockIndex s) (int t)}"
proof -
  let ?f = "firstSelectedBlockIndex s" and ?e = "endSelectedBlockIndex s"
  let ?D = "\<lambda>j. min ?f ?e \<le> j \<and> j \<le> max ?f ?e \<and> (j < min (int t) ?f \<or> j > max (int t) ?f)"
  let ?R = "\<lambda>j. min ?f (int t) \<le> j \<and> j \<le> max ?f (int t)"
  have idx: "indexOf (blocks s) t = int t"
    using t by (simp add: indexOf_def)
  have l1: "for_upto (min ?f ?e) (max ?f ?e)
              (\<lambda>i bs. if i < min (int t) ?f \<or> i > max (int t) ?f then setSelectedAt i False bs else Inr bs)
              (blocks s) = Inr (mark ?D False (blocks s))"
    using f e by (intro for_upto_mark) auto
  have l2: "for_upto (min ?f (int t)) (max ?f (int t)) (\<lambda>i. setSelectedAt i True)
              (mark ?D False (blocks s)) = Inr (mark ?R True (mark ?D False (blocks s)))"
    using f t by (intro for_upto_mark_all) auto
  have "toggleBlocksSelectedState t s =
          Inr (s\<lparr>blocks := mark ?R True (mark ?D False (blocks s)), endSelectedBlockIndex := int t\<rparr>)"
    by (simp only: toggleBlocksSelectedState_def Let_def idx l1 l2 sum.case)
  then show ?thesis
    by (simp add: selected_mark)
qed

lemma interval_neighbours: "q = Suc p \<or> p = Suc q \<Longrightarrow> {min p q..max p q} = {p, q}"
  by (elim disjE) (auto simp: min_def max_def)

lemma selected_mark_one:
  "b < length bs \<Longrightarrow>
   set (selectedIndices (mark (\<lambda>j. j = int b) v bs)) =
     (if v then insert b (set (selectedIndices bs)) else set (selectedIndices bs) - {b})"
  by (auto simp: selected_mark)

lemma int_interval:
  "a < n \<Longrightarrow> q < n \<Longrightarrow>
   {i. i < n \<and> min (int a) (int q) \<le> int i \<and> int i \<le> max (int a) (int q)} = {min a q..max a q}"
  by (auto simp: min_def max_def split: if_splits)

lemma nat_interval_of_int:
  "{i. min (int a) (int p) \<le> int i \<and> int i \<le> max (int a) (int p)} = {min a p..max a p}"
  by (auto simp: min_def max_def split: if_splits)

lemma tracked_step:
  assumes inv: "tracked_inv a p fresh s" and q: "q < length (blocks s)" and qp: "q \<noteq> p"
    and ok: "if p = a then q = Suc a \<or> a = Suc q
             else if q = a then True else fresh \<or> (p < a \<longleftrightarrow> q < a)"
  shows "\<exists>s'. onMouseOver \<lparr>button = LEFT, target = Some (InBlock q), relatedTarget = Some (InBlock p)\<rparr> s = Inr s'
              \<and> length (blocks s') = length (blocks s)
              \<and> tracked_inv a q (p \<noteq> a \<and> q \<noteq> a) s'"
proof -
  let ?ev = "\<lparr>button = LEFT, target = Some (InBlock q), relatedTarget = Some (InBlock p)\<rparr>"
  from inv have fb: "firstSelectedBlock s = Some a" and fi: "firstSelectedBlockIndex s = int a"
    and a: "a < length (blocks s)" and p: "p < length (blocks s)"
    and e: "0 \<le> endSelectedBlockIndex s" "endSelectedBlockIndex s < int (length (blocks s))"
    and sel: "set (selectedIndices (blocks s)) = (if p = a then {} else {min a p..max a p})"
    and track: "if fresh then endSelectedBlockIndex s = int p else (p = a \<or> p = Suc a \<or> a = Suc p)"
    by (simp_all add: tracked_inv_def)
  have look: "getBlockByChildNode (blocks s) (Some (InBlock p)) = Some p"
    "getBlockByChildNode (blocks s) (Some (InBlock q)) = Some q"
    using p q by (simp_all add: getBlockByChildNode_def)
  have ev: "onMouseOver ?ev s =
      (if firstSelectedBlock s = Some p then
         Inr (s\<lparr>nativeSelection := NoRange,
                blocks := mark (\<lambda>j. j = int q) True (mark (\<lambda>j. j = int p) True (blocks s))\<rparr>)
       else if firstSelectedBlock s = Some q then
         (case (if firstSelectedBlockIndex s \<noteq> endSelectedBlockIndex s
                then for_upto (min (firstSelectedBlockIndex s) (endSelectedBlockIndex s))
                       (max (firstSelectedBlockIndex s) (endSelectedBlockIndex s))
                       (\<lambda>i. setSelectedAt i False)
                       (mark (\<lambda>j. j = int q) False (mark (\<lambda>j. j = int p) False (blocks s)))
                else Inr (mark (\<lambda>j. j = int q) False (mark (\<lambda>j. j = int p) False (blocks s)))) of
            Inl err \<Rightarrow> Inl err
          | Inr bs1 \<Rightarrow> Inr (s\<lparr>blocks := bs1\<rparr>))
       else
         (case toggleBlocksSelectedState q (s\<lparr>inlineToolbarOpened := False\<rparr>) of
            Inl err \<Rightarrow> Inl err
          | Inr s' \<Rightarrow> Inr (s'\<lparr>lastSelectedBlock := Some q\<rparr>)))"
    using qp by (simp add: onMouseOver_def look setBlockSelected_mark Let_def)
  consider (first) "p = a" | (collapse) "p \<noteq> a" "q = a" | (resync) "p \<noteq> a" "q \<noteq> a" by blast
  then show ?thesis
  proof cases
    case first
    with ok have adj: "q = Suc p \<or> p = Suc q" by simp
    have "onMouseOver ?ev s =
            Inr (s\<lparr>nativeSelection := NoRange,
                   blocks := mark (\<lambda>j. j = int q) True (mark (\<lambda>j. j = int p) True (blocks s))\<rparr>)"
      unfolding ev using first fb by simp
    moreover have "tracked_inv a q (p \<noteq> a \<and> q \<noteq> a) (s\<lparr>nativeSelection := NoRange,
                   blocks := mark (\<lambda>j. j = int q) True (mark (\<lambda>j. j = int p) True (blocks s))\<rparr>)"
    proof -
      have "set (selectedIndices (mark (\<lambda>j. j = int q) True (mark (\<lambda>j. j = int p) True (blocks s)))) = {p, q}"
        using p q sel first by (simp add: selected_mark_one insert_commute)
      also have "\<dots> = {min a q..max a q}"
        using interval_neighbours[OF adj] first by simp
      finally show ?thesis
        using first fb fi a q e qp adj by (auto simp: tracked_inv_def)
    qed
    ultimately show ?thesis by simp
  next
    case collapse
    let ?bs0 = "mark (\<lambda>j. j = int q) False (mark (\<lambda>j. j = int p) False (blocks s))"
    let ?f = "firstSelectedBlockIndex s" and ?e = "endSelectedBlockIndex s"
    have loop: "for_upto (min ?f ?e) (max ?f ?e) (\<lambda>i. setSelectedAt i False) ?bs0
                  = Inr (mark (\<lambda>j. min ?f ?e \<le> j \<and> j \<le> max ?f ?e) False ?bs0)"
      using e fi a by (intro for_upto_mark_all) auto
    define bs1 where "bs1 = (if ?f \<noteq> ?e then mark (\<lambda>j. min ?f ?e \<le> j \<and> j \<le> max ?f ?e) False ?bs0 else ?bs0)"
    have bs1: "(if ?f \<noteq> ?e
             then for_upto (min ?f ?e) (max ?f ?e) (\<lambda>i. setSelectedAt i False) ?bs0
             else Inr ?bs0) = Inr bs1"
      by (simp add: bs1_def loop)
    have len1: "length bs1 = length (blocks s)"
      by (simp add: bs1_def)
    have s0: "set (selectedIndices ?bs0) = set (selectedIndices (blocks s)) - {p, q}"
      using p q by (simp add: selected_mark_one) blast
    have empty: "set (selectedIndices bs1) = {}"
    proof (cases fresh)
      case True
      with track have ep: "?e = int p" by simp
      with fi collapse have ne: "?f \<noteq> ?e" by simp
      have "set (selectedIndices bs1) =
              set (selectedIndices ?bs0) - {i. min (int a) (int p) \<le> int i \<and> int i \<le> max (int a) (int p)}"
        using ne by (simp add: bs1_def selected_mark fi ep del: length_mark nth_mark)
      also have "\<dots> = (set (selectedIndices (blocks s)) - {p, q}) - {min a p..max a p}"
        by (simp only: s0 nat_interval_of_int)
      also have "\<dots> = {}"
        using sel collapse by auto
      finally show ?thesis .
    next
      case False
      with track collapse have adj: "q = Suc p \<or> p = Suc q" by auto
      have "set (selectedIndices (blocks s)) = {p, q}"
        using sel collapse interval_neighbours[OF adj] by (simp add: min.commute max.commute)
      moreover have "set (selectedIndices bs1) \<subseteq> set (selectedIndices ?bs0)"
        unfolding bs1_def by (simp add: selected_mark del: length_mark nth_mark)
      ultimately show ?thesis using s0 by auto
    qed
    have "onMouseOver ?ev s = Inr (s\<lparr>blocks := bs1\<rparr>)"
      unfolding ev using collapse fb bs1 by simp
    moreover have "tracked_inv a q (p \<noteq> a \<and> q \<noteq> a) (s\<lparr>blocks := bs1\<rparr>)"
      using collapse fb fi a e len1 empty by (simp add: tracked_inv_def)
    ultimately show ?thesis using len1 by simp
  next
    case resync
    let ?s0 = "s\<lparr>inlineToolbarOpened := False\<rparr>"
    have pre: "q < length (blocks ?s0)" "0 \<le> firstSelectedBlockIndex ?s0"
      "firstSelectedBlockIndex ?s0 < int (length (blocks ?s0))"
      "0 \<le> endSelectedBlockIndex ?s0" "endSelectedBlockIndex ?s0 < int (length (blocks ?s0))"
      using q a e fi by simp_all
    from toggle_resync[OF pre] obtain s1 where t1: "toggleBlocksSelectedState q ?s0 = Inr s1"
      and len1': "length (blocks s1) = length (blocks ?s0)"
      and e1: "endSelectedBlockIndex s1 = int q"
      and fb1': "firstSelectedBlock s1 = firstSelectedBlock ?s0"
      and fi1': "firstSelectedBlockIndex s1 = firstSelectedBlockIndex ?s0"
      and sel1': "set (selectedIndices (blocks s1)) =
               (set (selectedIndices (blocks ?s0))
                  - {i. min (firstSelectedBlockIndex ?s0) (endSelectedBlockIndex ?s0) \<le> int i
                        \<and> int i \<le> max (firstSelectedBlockIndex ?s0) (endSelectedBlockIndex ?s0)
                        \<and> (int i < min (int q) (firstSelectedBlockIndex ?s0)
                             \<or> int i > max (int q) (firstSelectedBlockIndex ?s0))})
               \<union> {i. i < length (blocks ?s0) \<and> min (firstSelectedBlockIndex ?s0) (int q) \<le> int i
                        \<and> int i \<le> max (firstSelectedBlockIndex ?s0) (int q)}"
      by (elim exE conjE)
    from len1' have len1: "length (blocks s1) = length (blocks s)" by simp
    from fb1' fi1' have fb1: "firstSelectedBlock s1 = Some a" and fi1: "firstSelectedBlockIndex s1 = int a"
      using fb fi by simp_all
    let ?D = "{i. min (int a) (endSelectedBlockIndex s) \<le> int i
                        \<and> int i \<le> max (int a) (endSelectedBlockIndex s)
                        \<and> (int i < min (int q) (int a) \<or> int i > max (int q) (int a))}"
    have sel1: "set (selectedIndices (blocks s1)) =
               (set (selectedIndices (blocks s)) - ?D) \<union> {min a q..max a q}"
      using sel1' fi int_interval[OF a q] by simp
    have S: "set (selectedIndices (blocks s)) = {min a p..max a p}"
      using sel resync by simp
    have "onMouseOver ?ev s = Inr (s1\<lparr>lastSelectedBlock := Some q\<rparr>)"
      unfolding ev using resync fb t1 by simp
    moreover have "set (selectedIndices (blocks s1)) = {min a q..max a q}"
    proof -
      have "set (selectedIndices (blocks s)) - ?D \<subseteq> {min a q..max a q}"
      proof (cases fresh)
        case False
        with track resync have nb: "p = Suc a \<or> a = Suc p" by simp
        from False ok resync have side: "p < a \<longleftrightarrow> q < a" by simp
        have "{min a p..max a p} \<subseteq> {min a q..max a q}"
          using nb side resync by (auto simp: min_def max_def)
        then show ?thesis unfolding S by blast
      next
        case True
        with track have ep: "endSelectedBlockIndex s = int p" by simp
        show ?thesis
        proof
          fix i assume i: "i \<in> set (selectedIndices (blocks s)) - ?D"
          then have ir: "min a p \<le> i" "i \<le> max a p" unfolding S by auto
          from i have "\<not> (min (int a) (int p) \<le> int i \<and> int i \<le> max (int a) (int p)
                        \<and> (int i < min (int q) (int a) \<or> int i > max (int q) (int a)))"
            unfolding ep by simp
          moreover have "min (int a) (int p) \<le> int i" "int i \<le> max (int a) (int p)"
            using ir by (simp_all add: min_def max_def split: if_splits)
          ultimately have "\<not> int i < min (int q) (int a)" "\<not> int i > max (int q) (int a)"
            by blast+
          then show "i \<in> {min a q..max a q}"
            by (simp add: min_def max_def split: if_splits)
        qed
      qed
      then show ?thesis unfolding sel1 by blast
    qed
    moreover have "tracked_inv a q (p \<noteq> a \<and> q \<noteq> a) (s1\<lparr>lastSelectedBlock := Some q\<rparr>)"
      using calculation(2) resync fb1 fi1 a q e1 len1 by (simp add: tracked_inv_def)
    ultimately show ?thesis using len1 by simp
  qed
qed

lemma tracked_same:
  assumes "p < length (blocks s)"
  shows "onMouseOver \<lparr>button = LEFT, target = Some (InBlock p), relatedTarget = Some (InBlock p)\<rparr> s = Inr s"
  using assms by (simp add: onMouseOver_def getBlockByChildNode_def)

lemma tracked_all:
  "tracked_inv a p fresh s \<Longrightarrow> tracked_walk (length (blocks s)) a p fresh qs \<Longrightarrow>
   \<exists>s' fresh'. onMouseOver_all (walk_events p qs) s = Inr s' \<and> tracked_inv a (last (p # qs)) fresh' s'"
proof (induction qs arbitrary: p s fresh)
  case Nil
  then show ?case by auto
next
  case (Cons q qs)
  from Cons.prems(2) have q: "q < length (blocks s)" by simp
  show ?case
  proof (cases "q = p")
    case True
    with Cons.prems(2) have rest: "tracked_walk (length (blocks s)) a p fresh qs" by simp
    from Cons.IH[OF Cons.prems(1) rest] obtain s' fresh' where
      "onMouseOver_all (walk_events p qs) s = Inr s'" "tracked_inv a (last (p # qs)) fresh' s'"
      by blast
    then show ?thesis using True tracked_same[OF q] by auto
  next
    case False
    from Cons.prems(2) False have
      ok: "if p = a then q = Suc a \<or> a = Suc q
           else if q = a then True else fresh \<or> (p < a \<longleftrightarrow> q < a)"
      and rest: "tracked_walk (length (blocks s)) a q (p \<noteq> a \<and> q \<noteq> a) qs"
      by (auto split: if_splits)
    from tracked_step[OF Cons.prems(1) q False ok] obtain s1 where
      s1: "onMouseOver \<lparr>button = LEFT, target = Some (InBlock q), relatedTarget = Some (InBlock p)\<rparr> s = Inr s1"
      and len: "length (blocks s1) = length (blocks s)"
      and inv1: "tracked_inv a q (p \<noteq> a \<and> q \<noteq> a) s1"
      by blast
    from rest len have rest1: "tracked_walk (length (blocks s1)) a q (p \<noteq> a \<and> q \<noteq> a) qs" by simp
    from Cons.IH[OF inv1 rest1] obtain s' fresh' where
      "onMouseOver_all (walk_events q qs) s1 = Inr s'" "tracked_inv a (last (q # qs)) fresh' s'"
      by blast
    with s1 show ?thesis by auto
  qed
qed

lemma armed_tracked:
  assumes "a < length (blocks s0)" and "\<forall>b\<in>set (blocks s0). \<not> selected b"
  shows "tracked_inv a a False (watchSelection (mousedown_in a) s0)"
    and "length (blocks (watchSelection (mousedown_in a) s0)) = length (blocks s0)"
  using assms
  by (auto simp: tracked_inv_def watchSelection_def mousedown_in_def getBlock_def
      getBlockByChildNode_def getBlockIndex_def indexOf_def Let_def set_selectedIndices)

text \<open>
  C1 (as amended). Arm the engine by a primary-button pointer-down in block \<open>a\<close> of a
  document without selected blocks, and let the pointer then move from block to block,
  leaving the anchor only for a neighbouring block and not jumping to the other side of
  the anchor in the event right after that. After the events the handler has not
  faulted, and the selected blocks are exactly those of the inclusive range between the
  anchor \<open>a\<close> and the pointer's block \<open>t\<close> when \<open>t\<close> differs from \<open>a\<close>, and no block at all
  when the pointer is back on the anchor.
\<close>

theorem crossBlock_tracked_walk_range:
  assumes "a < length (blocks s0)"
    and "\<forall>b\<in>set (blocks s0). \<not> selected b"
    and "tracked_walk (length (blocks s0)) a a False ps"
  shows "\<exists>s'. onMouseOver_all (walk_events a ps) (watchSelection (mousedown_in a) s0) = Inr s'
           \<and> set (selectedIndices (blocks s')) =
               (if last (a # ps) = a then {} else {min a (last (a # ps))..max a (last (a # ps))})"
proof -
  from armed_tracked[OF assms(1,2)] assms(3)
  have "\<exists>s' fresh'. onMouseOver_all (walk_events a ps) (watchSelection (mousedown_in a) s0) = Inr s'
           \<and> tracked_inv a (last (a # ps)) fresh' s'"
    by (intro tracked_all) simp_all
  then show ?thesis
    by (auto simp: tracked_inv_def)
qed

theorem crossBlock_tracked_walk_range_witness:
  "tracked_walk 6 1 1 False [2, 5, 3, 0] \<and>
   (\<exists>s'. onMouseOver_all (walk_events 1 [2, 5, 3, 0]) (watchSelection (mousedown_in 1) (idle_cbs 6)) = Inr s'
           \<and> set (selectedIndices (blocks s')) = {0..1})"
proof -
  have h1: "1 < length (blocks (idle_cbs 6))"
    by (simp add: idle_cbs_def)
  have h2: "\<forall>b\<in>set (blocks (idle_cbs 6)). \<not> selected b"
    by (simp add: idle_cbs_def plain_block_def)
  have w: "tracked_walk 6 1 1 False [2, 5, 3, 0]"
    by simp
  then have h3: "tracked_walk (length (blocks (idle_cbs 6))) 1 1 False [2, 5, 3, 0]"
    by (simp add: idle_cbs_def)
  have r: "(if last (1 # [2, 5, 3, 0]) = (1::nat) then {}
            else {min 1 (last (1 # [2, 5, 3, 0]))..max 1 (last (1 # [2, 5, 3, 0]))})
             = {0..1::nat}"
    by simp
  from crossBlock_tracked_walk_range[OF h1 h2 h3] w show ?thesis
    unfolding r by (rule_tac conjI)
qed

text \<open>
  C1 as stated fails: one \<open>mouseover\<close> from the anchor 0 to block 2 selects the
  blocks 0 and 2 only, not the range 0..2; and a pointer that goes from the anchor 1 to
  block 2 and back leaves no block selected, not the range 1..1.
\<close>

theorem crossBlock_range_counterexample:
  "selection_of (onMouseOver_all
       [\<lparr>button = LEFT, target = Some (InBlock 2), relatedTarget = Some (InBlock 0)\<rparr>]
       (watchSelection (mousedown_in 0) (idle_cbs 3))) = Inr [0, 2]
   \<and> set [0, 2] \<noteq> {min 0 2..max 0 (2::nat)}
   \<and> selection_of (onMouseOver_all (walk_events 1 [2, 1])
       (watchSelection (mousedown_in 1) (idle_cbs 3))) = Inr []
   \<and> set [] \<noteq> {min 1 1..max 1 (1::nat)}"
proof -
  have "selection_of (onMouseOver_all
       [\<lparr>button = LEFT, target = Some (InBlock 2), relatedTarget = Some (InBlock 0)\<rparr>]
       (watchSelection (mousedown_in 0) (idle_cbs 3))) = Inr [0, 2]"
    by code_simp
  moreover have "selection_of (onMouseOver_all (walk_events 1 [2, 1])
       (watchSelection (mousedown_in 1) (idle_cbs 3))) = Inr []"
    by code_simp
  moreover have "set [0, 2] \<noteq> {min 0 2..max 0 (2::nat)}"
    by auto
  ultimately show ?thesis by simp
qed

text \<open>
  C8. The two implementations of the range reconciliation diverge: armed in block 5 of
  a seven-block document, the events "5 to 6" and "6 to 3" leave the blocks 3..6 selected
  under the whole-range resync (part\_002) and the blocks 3..5 under the incremental
  variant (part\_001).
\<close>

theorem reconciliation_variants_diverge:
  "selection_of (onMouseOver_all (walk_events 5 [6, 3]) (watchSelection (mousedown_in 5) (idle_cbs 7)))
     = Inr [3, 4, 5, 6]
   \<and> selection_of (onMouseOver_all_p001 (walk_events 5 [6, 3]) (watchSelection (mousedown_in 5) (idle_cbs 7)))
     = Inr [3, 4, 5]
   \<and> selection_of (onMouseOver_all (walk_events 5 [6, 3]) (watchSelection (mousedown_in 5) (idle_cbs 7)))
     \<noteq> selection_of (onMouseOver_all_p001 (walk_events 5 [6, 3]) (watchSelection (mousedown_in 5) (idle_cbs 7)))"
proof -
  have a: "selection_of (onMouseOver_all (walk_events 5 [6, 3]) (watchSelection (mousedown_in 5) (idle_cbs 7)))
     = Inr [3, 4, 5, 6]"
    by code_simp
  have b: "selection_of (onMouseOver_all_p001 (walk_events 5 [6, 3]) (watchSelection (mousedown_in 5) (idle_cbs 7)))
     = Inr [3, 4, 5]"
    by code_simp
  show ?thesis
    unfolding a b by simp
qed

section \<open>Rectangle selection: stack, overlap flag, autoscroll, drag end\<close>

lemma for_up_add:
  "for_up i hi addBlockInSelection s =
     s\<lparr>blocks := (if rectCrossesBlocks s then fold selectBlockByIndex [i..hi] (blocks s) else blocks s),
       stackOfSelected := stackOfSelected s @ [i..hi]\<rparr>"
proof (induction "nat (hi + 1 - i)" arbitrary: i s)
  case 0
  then have "\<not> i \<le> hi" by simp
  then show ?case by (subst for_up.simps) simp
next
  case (Suc k)
  then have le: "i \<le> hi" and k: "k = nat (hi + 1 - (i + 1))" by auto
  have up: "[i..hi] = i # [i + 1..hi]" using le by (simp add: upto_rec1)
  show ?case
    by (subst for_up.simps) (simp add: le Suc.hyps(1)[OF k] up addBlockInSelection_def Let_def)
qed

lemma for_down_add:
  "for_down i lo addBlockInSelection s =
     s\<lparr>blocks := (if rectCrossesBlocks s then fold selectBlockByIndex (rev [lo..i]) (blocks s) else blocks s),
       stackOfSelected := stackOfSelected s @ rev [lo..i]\<rparr>"
proof (induction "nat (i + 1 - lo)" arbitrary: i s)
  case 0
  then have "\<not> lo \<le> i" by simp
  then show ?case by (subst for_down.simps) simp
next
  case (Suc k)
  then have le: "lo \<le> i" and k: "k = nat (i - 1 + 1 - lo)" by auto
  have up: "rev [lo..i] = i # rev [lo..i - 1]" using le by (simp add: upto_rec2)
  show ?case
    by (subst for_down.simps) (simp add: le Suc.hyps(1)[OF k] up addBlockInSelection_def Let_def)
qed

lemma pop_while_eq:
  "pop_while cmp s =
     s\<lparr>blocks := (if rectCrossesBlocks s
                   then fold unSelectBlockByIndex (takeWhile cmp (rev (stackOfSelected s))) (blocks s)
                   else blocks s),
       stackOfSelected := rev (dropWhile cmp (rev (stackOfSelected s)))\<rparr>"
proof (induction "length (stackOfSelected s)" arbitrary: s)
  case 0
  then show ?case by (subst pop_while.simps) simp
next
  case (Suc k)
  then have ne: "stackOfSelected s \<noteq> []" by auto
  then have sn: "stackOfSelected s = butlast (stackOfSelected s) @ [last (stackOfSelected s)]" by simp
  have rv: "rev (stackOfSelected s) = last (stackOfSelected s) # rev (butlast (stackOfSelected s))"
    by (subst sn) (simp only: rev_append rev.simps append.simps)
  show ?case
  proof (cases "cmp (last (stackOfSelected s))")
    case False
    then show ?thesis using ne by (subst pop_while.simps) (simp add: rv)
  next
    case True
    let ?s1 = "(if rectCrossesBlocks s
               then s\<lparr>blocks := unSelectBlockByIndex (last (stackOfSelected s)) (blocks s)\<rparr>
               else s)\<lparr>stackOfSelected := butlast (stackOfSelected s)\<rparr>"
    have k: "k = length (stackOfSelected ?s1)" using Suc.hyps(2) by simp
    show ?thesis
      by (subst pop_while.simps) (simp add: True ne Suc.hyps(1)[OF k] rv)
  qed
qed

lemma ascending_Cons: "ascending (x # xs) = (ascending xs \<and> (xs \<noteq> [] \<longrightarrow> hd xs = x + 1))"
  by (cases xs) auto

lemma descending_Cons: "descending (x # xs) = (descending xs \<and> (xs \<noteq> [] \<longrightarrow> hd xs = x - 1))"
  by (cases xs) auto

lemma ascending_append:
  "ascending (xs @ ys) = (ascending xs \<and> ascending ys \<and> (xs \<noteq> [] \<and> ys \<noteq> [] \<longrightarrow> hd ys = last xs + 1))"
proof (induction xs)
  case Nil
  then show ?case by simp
next
  case (Cons x xs)
  then show ?case by (cases xs) (auto simp: ascending_Cons)
qed

lemma descending_append:
  "descending (xs @ ys) = (descending xs \<and> descending ys \<and> (xs \<noteq> [] \<and> ys \<noteq> [] \<longrightarrow> hd ys = last xs - 1))"
proof (induction xs)
  case Nil
  then show ?case by simp
next
  case (Cons x xs)
  then show ?case by (cases xs) (auto simp: descending_Cons)
qed

lemma ascending_upto: "ascending [i..j]"
proof (induction "nat (j + 1 - i)" arbitrary: i)
  case 0
  then show ?case by simp
next
  case (Suc k)
  then have le: "i \<le> j" and k: "k = nat (j + 1 - (i + 1))" by auto
  have "[i..j] = [i] @ [i + 1..j]" using le by (simp add: upto_rec1)
  moreover have "[i + 1..j] \<noteq> [] \<Longrightarrow> hd [i + 1..j] = i + 1"
    by (simp add: upto_rec1 split: if_splits)
  ultimately show ?case using Suc.hyps(1)[OF k] by (simp add: ascending_Cons)
qed

lemma last_upto: "i \<le> j \<Longrightarrow> last [i..j] = j"
  by (simp add: upto_rec2)

lemma descending_rev_upto: "descending (rev [i..j])"
proof (induction "nat (j + 1 - i)" arbitrary: j)
  case 0
  then show ?case by simp
next
  case (Suc k)
  then have le: "i \<le> j" and k: "k = nat (j - 1 + 1 - i)" by auto
  have "rev [i..j] = [j] @ rev [i..j - 1]" using le by (simp add: upto_rec2)
  moreover have "rev [i..j - 1] \<noteq> [] \<Longrightarrow> hd (rev [i..j - 1]) = j - 1"
    by (simp add: hd_rev last_upto)
  ultimately show ?case using Suc.hyps(1)[OF k] by (simp add: descending_Cons)
qed

lemma ascending_hd_le_last: "ascending (x # r) \<Longrightarrow> x \<le> last (x # r)"
proof (induction r arbitrary: x)
  case Nil
  then show ?case by simp
next
  case (Cons y r)
  from Cons.prems have y: "y = x + 1" and asc: "ascending (y # r)" by auto
  from Cons.IH[OF asc] y show ?case by simp
qed

lemma descending_hd_ge_last: "descending (x # r) \<Longrightarrow> x \<ge> last (x # r)"
proof (induction r arbitrary: x)
  case Nil
  then show ?case by simp
next
  case (Cons y r)
  from Cons.prems have y: "y = x - 1" and desc: "descending (y # r)" by auto
  from Cons.IH[OF desc] y show ?case by simp
qed

lemma ascending_le_last: "ascending xs \<Longrightarrow> v \<in> set xs \<Longrightarrow> v \<le> last xs"
proof (induction xs)
  case Nil
  then show ?case by simp
next
  case (Cons x r)
  show ?case
  proof (cases "v = x")
    case True
    with Cons.prems(1) ascending_hd_le_last show ?thesis by blast
  next
    case False
    with Cons.prems have "v \<in> set r" "r \<noteq> []" "ascending r"
      by (auto simp: ascending_Cons)
    with Cons.IH show ?thesis by simp
  qed
qed

lemma descending_ge_last: "descending xs \<Longrightarrow> v \<in> set xs \<Longrightarrow> v \<ge> last xs"
proof (induction xs)
  case Nil
  then show ?case by simp
next
  case (Cons x r)
  show ?case
  proof (cases "v = x")
    case True
    with Cons.prems(1) descending_hd_ge_last show ?thesis by blast
  next
    case False
    with Cons.prems have "v \<in> set r" "r \<noteq> []" "descending r"
      by (auto simp: descending_Cons)
    with Cons.IH show ?thesis by simp
  qed
qed

lemma last_two:
  assumes "length st > 1"
  shows "\<exists>xs. st = xs @ [st ! (length st - 2), st ! (length st - 1)]"
proof -
  from assms obtain ys b where st: "st = ys @ [b]" by (cases st rule: rev_cases) auto
  with assms obtain xs a where ys: "ys = xs @ [a]" by (cases ys rule: rev_cases) auto
  have "st ! (length st - 1) = b" by (simp add: st)
  moreover have "st ! (length st - 2) = a" by (simp add: st ys nth_append)
  ultimately show ?thesis using st ys by simp
qed

lemma direction_asc:
  assumes "ascending st" and "length st > 1"
  shows "direction_of st = down"
proof -
  from last_two[OF assms(2)] obtain xs where
    st: "st = xs @ [st ! (length st - 2), st ! (length st - 1)]" ..
  have "ascending (xs @ [st ! (length st - 2), st ! (length st - 1)])"
    using assms(1) st by simp
  then have "st ! (length st - 1) = st ! (length st - 2) + 1"
    by (simp add: ascending_append)
  then show ?thesis using assms(2) by (simp add: direction_of_def Let_def)
qed

lemma direction_desc:
  assumes "descending st" and "length st > 1"
  shows "direction_of st = up"
proof -
  from last_two[OF assms(2)] obtain xs where
    st: "st = xs @ [st ! (length st - 2), st ! (length st - 1)]" ..
  have "descending (xs @ [st ! (length st - 2), st ! (length st - 1)])"
    using assms(1) st by simp
  then have "st ! (length st - 1) = st ! (length st - 2) - 1"
    by (simp add: descending_append)
  then show ?thesis using assms(2) by (simp add: direction_of_def Let_def)
qed

lemma direction_short: "length st \<le> 1 \<Longrightarrow> direction_of st = undef"
  by (simp add: direction_of_def)

lemma short_ascending: "length st \<le> 1 \<Longrightarrow> ascending st"
  by (cases st rule: ascending.cases) auto

lemma short_descending: "length st \<le> 1 \<Longrightarrow> descending st"
  by (cases st rule: descending.cases) auto

lemma dirs_distinct: "down \<noteq> up" "down \<noteq> undef" "up \<noteq> undef"
  by (simp_all add: down_def up_def undef_def)

lemma direction_of_ascending:
  "ascending st \<Longrightarrow> direction_of st = down \<or> direction_of st = undef"
  using direction_asc[of st] direction_short[of st] by (cases "length st > 1") auto

lemma direction_of_descending:
  "descending st \<Longrightarrow> direction_of st = up \<or> direction_of st = undef"
  using direction_desc[of st] direction_short[of st] by (cases "length st > 1") auto

lemma stack_inv_direction:
  assumes "stack_inv st"
  shows "(direction_of st = down \<longrightarrow> ascending st) \<and> (direction_of st = up \<longrightarrow> descending st)"
proof (cases "length st > 1")
  case False
  then show ?thesis by (simp add: short_ascending short_descending)
next
  case True
  from assms have "ascending st \<or> descending st" by (simp add: stack_inv_def)
  then show ?thesis
    using direction_asc[OF _ True] direction_desc[OF _ True] dirs_distinct by auto
qed

lemma try_empty:
  "stackOfSelected s = [] \<Longrightarrow> trySelectNextBlock idx s = for_up idx idx addBlockInSelection s"
  by (simp add: trySelectNextBlock_def Let_def direction_short)

lemma try_same:
  "stackOfSelected s \<noteq> [] \<Longrightarrow> last (stackOfSelected s) = idx \<Longrightarrow> trySelectNextBlock idx s = s"
  by (simp add: trySelectNextBlock_def Let_def)

lemma try_grow_down:
  "stackOfSelected s \<noteq> [] \<Longrightarrow> idx > last (stackOfSelected s) \<Longrightarrow> 0 \<le> last (stackOfSelected s) \<Longrightarrow>
   direction_of (stackOfSelected s) = down \<or> direction_of (stackOfSelected s) = undef \<Longrightarrow>
   trySelectNextBlock idx s = for_up (last (stackOfSelected s) + 1) idx addBlockInSelection s"
  by (auto simp: trySelectNextBlock_def Let_def)

lemma try_grow_up:
  "stackOfSelected s \<noteq> [] \<Longrightarrow> idx < last (stackOfSelected s) \<Longrightarrow>
   direction_of (stackOfSelected s) = up \<or> direction_of (stackOfSelected s) = undef \<Longrightarrow>
   trySelectNextBlock idx s = for_down (last (stackOfSelected s) - 1) idx addBlockInSelection s"
  by (auto simp: trySelectNextBlock_def Let_def)

lemma try_reduce_from_up:
  "stackOfSelected s \<noteq> [] \<Longrightarrow> idx > last (stackOfSelected s) \<Longrightarrow>
   direction_of (stackOfSelected s) = up \<Longrightarrow>
   trySelectNextBlock idx s = pop_while (\<lambda>v. idx > v) s"
  using dirs_distinct by (auto simp: trySelectNextBlock_def Let_def)

lemma try_reduce_from_down:
  "stackOfSelected s \<noteq> [] \<Longrightarrow> idx < last (stackOfSelected s) \<Longrightarrow>
   direction_of (stackOfSelected s) = down \<Longrightarrow>
   trySelectNextBlock idx s = pop_while (\<lambda>v. idx < v) s"
  using dirs_distinct by (auto simp: trySelectNextBlock_def Let_def)

lemma split_by_pops:
  "st = rev (dropWhile P (rev st)) @ rev (takeWhile P (rev st))"
proof -
  have "rev (takeWhile P (rev st) @ dropWhile P (rev st)) = st" by simp
  then show ?thesis by (simp only: rev_append)
qed

lemma kept_last_not_beyond:
  "rev (dropWhile P (rev st)) \<noteq> [] \<Longrightarrow> \<not> P (last (rev (dropWhile P (rev st))))"
  by (simp add: last_rev hd_dropWhile)

lemma hd_upto: "i \<le> j \<Longrightarrow> hd [i..j] = i"
  by (simp add: upto_rec1)

lemma try_stack_inv:
  assumes inv: "stack_inv (stackOfSelected s)" and idx: "0 \<le> idx"
  shows "stack_inv (stackOfSelected (trySelectNextBlock idx s))"
proof -
  let ?st = "stackOfSelected s"
  from inv have run: "ascending ?st \<or> descending ?st" and nn: "list_all (\<lambda>v. 0 \<le> v) ?st"
    by (simp_all add: stack_inv_def)
  show ?thesis
  proof (cases "?st = []")
    case True
    then show ?thesis using idx
      by (simp add: try_empty for_up_add stack_inv_def)
  next
    case False
    then have t0: "0 \<le> last ?st" using nn by (simp add: list_all_iff)
    consider (same) "idx = last ?st"
      | (grow_down) "idx > last ?st" "ascending ?st"
      | (reduce_up) "idx > last ?st" "\<not> ascending ?st"
      | (grow_up) "idx < last ?st" "descending ?st"
      | (reduce_down) "idx < last ?st" "\<not> descending ?st"
      by linarith
    then show ?thesis
    proof cases
      case same
      then show ?thesis using False inv by (simp add: try_same)
    next
      case grow_down
      have eq: "trySelectNextBlock idx s = for_up (last ?st + 1) idx addBlockInSelection s"
        using False grow_down t0 direction_of_ascending by (intro try_grow_down) auto
      have "ascending (?st @ [last ?st + 1..idx])"
        using grow_down False by (simp add: ascending_append ascending_upto hd_upto)
      moreover have "list_all (\<lambda>v. 0 \<le> v) [last ?st + 1..idx]"
        using t0 by (simp add: list_all_iff)
      ultimately show ?thesis using nn by (simp add: eq for_up_add stack_inv_def)
    next
      case grow_up
      have eq: "trySelectNextBlock idx s = for_down (last ?st - 1) idx addBlockInSelection s"
        using False grow_up direction_of_descending by (intro try_grow_up) auto
      have "descending (?st @ rev [idx..last ?st - 1])"
        using grow_up False
        by (simp add: descending_append descending_rev_upto hd_rev last_upto)
      moreover have "list_all (\<lambda>v. 0 \<le> v) (rev [idx..last ?st - 1])"
        using idx by (simp add: list_all_iff)
      ultimately show ?thesis using nn by (simp add: eq for_down_add stack_inv_def)
    next
      case reduce_up
      then have long: "length ?st > 1" using short_ascending[of ?st] by (cases "length ?st > 1") auto
      from reduce_up run have desc: "descending ?st" by simp
      have eq: "trySelectNextBlock idx s = pop_while (\<lambda>v. idx > v) s"
        using False reduce_up direction_desc[OF desc long] by (intro try_reduce_from_up)
      have "descending (rev (dropWhile (\<lambda>v. idx > v) (rev ?st)) @ rev (takeWhile (\<lambda>v. idx > v) (rev ?st)))"
        using desc by (simp only: split_by_pops[symmetric])
      then have "descending (rev (dropWhile (\<lambda>v. idx > v) (rev ?st)))"
        by (simp only: descending_append)
      moreover have "list_all (\<lambda>v. 0 \<le> v) (rev (dropWhile (\<lambda>v. idx > v) (rev ?st)))"
        using nn by (auto simp: list_all_iff dest: set_dropWhileD)
      ultimately show ?thesis by (simp add: eq pop_while_eq stack_inv_def)
    next
      case reduce_down
      then have long: "length ?st > 1" using short_descending[of ?st] by (cases "length ?st > 1") auto
      from reduce_down run have asc: "ascending ?st" by simp
      have eq: "trySelectNextBlock idx s = pop_while (\<lambda>v. idx < v) s"
        using False reduce_down direction_asc[OF asc long] by (intro try_reduce_from_down)
      have "ascending (rev (dropWhile (\<lambda>v. idx < v) (rev ?st)) @ rev (takeWhile (\<lambda>v. idx < v) (rev ?st)))"
        using asc by (simp only: split_by_pops[symmetric])
      then have "ascending (rev (dropWhile (\<lambda>v. idx < v) (rev ?st)))"
        by (simp only: ascending_append)
      moreover have "list_all (\<lambda>v. 0 \<le> v) (rev (dropWhile (\<lambda>v. idx < v) (rev ?st)))"
        using nn by (auto simp: list_all_iff dest: set_dropWhileD)
      ultimately show ?thesis by (simp add: eq pop_while_eq stack_inv_def)
    qed
  qed
qed

lemma kept_not_beyond_asc:
  assumes "ascending st"
  shows "list_all (\<lambda>v. \<not> idx < v) (rev (dropWhile (\<lambda>v. idx < v) (rev st)))"
proof -
  define K where "K = rev (dropWhile (\<lambda>v. idx < v) (rev st))"
  define Q where "Q = rev (takeWhile (\<lambda>v. idx < v) (rev st))"
  have "st = K @ Q" unfolding K_def Q_def by (rule split_by_pops)
  with assms have "ascending (K @ Q)" by simp
  then have asc: "ascending K" by (simp only: ascending_append)
  have "list_all (\<lambda>v. \<not> idx < v) K"
  proof (cases "K = []")
    case True
    then show ?thesis by simp
  next
    case False
    then have "\<not> idx < last K" unfolding K_def by (rule kept_last_not_beyond)
    moreover have "\<And>v. v \<in> set K \<Longrightarrow> v \<le> last K" using asc by (rule ascending_le_last)
    ultimately show ?thesis unfolding list_all_iff by (meson le_less_trans not_less order.strict_trans2)
  qed
  then show ?thesis by (simp only: K_def)
qed

lemma kept_not_beyond_desc:
  assumes "descending st"
  shows "list_all (\<lambda>v. \<not> v < idx) (rev (dropWhile (\<lambda>v. v < idx) (rev st)))"
proof -
  define K where "K = rev (dropWhile (\<lambda>v. v < idx) (rev st))"
  define Q where "Q = rev (takeWhile (\<lambda>v. v < idx) (rev st))"
  have "st = K @ Q" unfolding K_def Q_def by (rule split_by_pops)
  with assms have "descending (K @ Q)" by simp
  then have desc: "descending K" by (simp only: descending_append)
  have "list_all (\<lambda>v. \<not> v < idx) K"
  proof (cases "K = []")
    case True
    then show ?thesis by simp
  next
    case False
    then have "\<not> last K < idx" unfolding K_def by (rule kept_last_not_beyond)
    moreover have "\<And>v. v \<in> set K \<Longrightarrow> v \<ge> last K" using desc by (rule descending_ge_last)
    ultimately show ?thesis unfolding list_all_iff by (meson le_less_trans not_less order.strict_trans2)
  qed
  then show ?thesis by (simp only: K_def)
qed

lemma popped_beyond: "list_all P (rev (takeWhile P (rev st)))"
  by (auto simp: list_all_iff dest: set_takeWhileD)

lemma try_reversal:
  assumes inv: "stack_inv (stackOfSelected s)" and rev: "reversal idx (stackOfSelected s)"
  shows "\<exists>kept popped. stackOfSelected s = kept @ popped
            \<and> stackOfSelected (trySelectNextBlock idx s) = kept
            \<and> list_all (beyond idx (stackOfSelected s)) popped
            \<and> list_all (\<lambda>v. \<not> beyond idx (stackOfSelected s) v) kept
            \<and> blocks (trySelectNextBlock idx s) =
                (if rectCrossesBlocks s then fold unSelectBlockByIndex (rev popped) (blocks s)
                 else blocks s)"
proof -
  define st where "st = stackOfSelected s"
  define P where "P = beyond idx st"
  define kept where "kept = rev (dropWhile P (rev st))"
  define popped where "popped = rev (takeWhile P (rev st))"
  from rev have ne: "st \<noteq> []" by (simp add: reversal_def st_def)
  from stack_inv_direction[OF inv] rev
  have mono: "(idx < last st \<and> ascending st \<and> direction_of st = down)
              \<or> (idx > last st \<and> descending st \<and> direction_of st = up)"
    unfolding st_def reversal_def by blast
  have split: "st = kept @ popped" unfolding kept_def popped_def by (rule split_by_pops)
  have pb: "list_all P popped" unfolding popped_def by (rule popped_beyond)
  have "trySelectNextBlock idx s = pop_while P s \<and> list_all (\<lambda>v. \<not> P v) kept"
    using mono
  proof
    assume a: "idx < last st \<and> ascending st \<and> direction_of st = down"
    then have Peq: "P = (\<lambda>v. idx < v)" unfolding P_def by (intro ext) (simp add: beyond_def)
    have "trySelectNextBlock idx s = pop_while (\<lambda>v. idx < v) s"
      using a ne unfolding st_def by (intro try_reduce_from_down) simp_all
    moreover have "list_all (\<lambda>v. \<not> idx < v) (rev (dropWhile (\<lambda>v. idx < v) (rev st)))"
      using a by (intro kept_not_beyond_asc) simp
    ultimately show ?thesis unfolding kept_def Peq by (rule conjI)
  next
    assume a: "idx > last st \<and> descending st \<and> direction_of st = up"
    then have Peq: "P = (\<lambda>v. v < idx)" unfolding P_def by (intro ext) (simp add: beyond_def)
    have "trySelectNextBlock idx s = pop_while (\<lambda>v. idx > v) s"
      using a ne unfolding st_def by (intro try_reduce_from_up) simp_all
    moreover have "list_all (\<lambda>v. \<not> v < idx) (rev (dropWhile (\<lambda>v. v < idx) (rev st)))"
      using a by (intro kept_not_beyond_desc) simp
    ultimately show ?thesis unfolding kept_def Peq by (rule conjI)
  qed
  then have eq: "trySelectNextBlock idx s = pop_while P s" and kb: "list_all (\<lambda>v. \<not> P v) kept"
    by simp_all
  have st': "stackOfSelected (trySelectNextBlock idx s) = kept"
    unfolding eq kept_def st_def by (subst pop_while_eq) simp
  have bl': "blocks (trySelectNextBlock idx s) =
                (if rectCrossesBlocks s then fold unSelectBlockByIndex (rev popped) (blocks s)
                 else blocks s)"
    unfolding eq popped_def st_def by (subst pop_while_eq) simp
  show ?thesis
    using split st' pb kb bl' unfolding P_def st_def
    by (intro exI[of _ kept] exI[of _ popped] conjI)
qed

lemma length_setBlockSelected [simp]: "length (setBlockSelected b v bs) = length bs"
  by (simp add: setBlockSelected_def)

lemma length_selectBlockByIndex [simp]: "length (selectBlockByIndex i bs) = length bs"
  by (simp add: selectBlockByIndex_def)

lemma length_unSelectBlockByIndex [simp]: "length (unSelectBlockByIndex i bs) = length bs"
  by (simp add: unSelectBlockByIndex_def)

lemma length_fold_select [simp]: "length (fold selectBlockByIndex is bs) = length bs"
  by (induction "is" arbitrary: bs) simp_all

lemma length_fold_unselect [simp]: "length (fold unSelectBlockByIndex is bs) = length bs"
  by (induction "is" arbitrary: bs) simp_all

lemma try_frame:
  "trySelectNextBlock idx s =
     s\<lparr>blocks := blocks (trySelectNextBlock idx s),
       stackOfSelected := stackOfSelected (trySelectNextBlock idx s)\<rparr>"
  by (simp add: trySelectNextBlock_def Let_def for_up_add for_down_add pop_while_eq)

lemma try_length [simp]: "length (blocks (trySelectNextBlock idx s)) = length (blocks s)"
  by (simp add: trySelectNextBlock_def Let_def for_up_add for_down_add pop_while_eq)

lemma try_no_cross:
  "\<not> rectCrossesBlocks s \<Longrightarrow> blocks (trySelectNextBlock idx s) = blocks s"
  by (simp add: trySelectNextBlock_def Let_def for_up_add for_down_add pop_while_eq)

lemma try_crosses [simp]: "rectCrossesBlocks (trySelectNextBlock idx s) = rectCrossesBlocks s"
  by (subst try_frame) simp

lemma try_mousedown [simp]: "mousedown (trySelectNextBlock idx s) = mousedown s"
  by (subst try_frame) simp

lemma try_startX [simp]: "startX (trySelectNextBlock idx s) = startX s"
  by (subst try_frame) simp

lemma inverse_frame:
  "inverseSelection s = s\<lparr>blocks := blocks (inverseSelection s)\<rparr>"
  by (simp add: inverseSelection_def Let_def)

lemma inverse_length [simp]: "length (blocks (inverseSelection s)) = length (blocks s)"
  by (simp add: inverseSelection_def Let_def)

lemma inverse_stack [simp]: "stackOfSelected (inverseSelection s) = stackOfSelected s"
  by (subst inverse_frame) simp

lemma inverse_crosses [simp]: "rectCrossesBlocks (inverseSelection s) = rectCrossesBlocks s"
  by (subst inverse_frame) simp

lemma inverse_mousedown [simp]: "mousedown (inverseSelection s) = mousedown s"
  by (subst inverse_frame) simp

lemma inverse_startX [simp]: "startX (inverseSelection s) = startX s"
  by (subst inverse_frame) simp

lemma inverse_nothing_selected:
  "list_all (\<lambda>b. \<not> selected b) (blocks s) \<Longrightarrow> \<not> rectCrossesBlocks s \<Longrightarrow> inverseSelection s = s"
  by (auto simp: inverseSelection_def Let_def list_all_iff split: list.splits)

lemma scroll_frame:
  "scrollByZones ev s =
     s\<lparr>inScrollZone := inScrollZone (scrollByZones ev s),
       scrollTop := scrollTop (scrollByZones ev s),
       pendingTimeouts := pendingTimeouts (scrollByZones ev s)\<rparr>"
  by (simp add: scrollByZones_def scrollVertical_def scrollBy_def Let_def)

lemma scroll_blocks [simp]: "blocks (scrollByZones ev s) = blocks s"
  by (subst scroll_frame) simp

lemma scroll_stack [simp]: "stackOfSelected (scrollByZones ev s) = stackOfSelected s"
  by (subst scroll_frame) simp

lemma scroll_crosses [simp]: "rectCrossesBlocks (scrollByZones ev s) = rectCrossesBlocks s"
  by (subst scroll_frame) simp

lemma scroll_mousedown [simp]: "mousedown (scrollByZones ev s) = mousedown s"
  by (subst scroll_frame) simp

lemma scroll_startX [simp]: "startX (scrollByZones ev s) = startX s"
  by (subst scroll_frame) simp

lemma after_geometry_fields [simp]:
  "rectCrossesBlocks (after_geometry ev s) = (isRectSelectionActivated s \<and> \<not> rectOutsideColumn (startX s) ev)"
  "blocks (after_geometry ev s) = blocks s"
  "stackOfSelected (after_geometry ev s) = stackOfSelected s"
  "mousedown (after_geometry ev s) = mousedown s"
  "startX (after_geometry ev s) = startX s"
  by (simp_all add: after_geometry_def Let_def)

lemma changing_eq:
  assumes "mousedown s" and "blocks s \<noteq> []"
  shows "changingRectangle ev s =
     Inr (case getBlockByChildNode (blocks s) (elementUnderMouse ev) of
            None \<Rightarrow> after_geometry ev s
          | Some b \<Rightarrow> (inverseSelection (trySelectNextBlock (int b) (after_geometry ev s)))
                        \<lparr>nativeSelection := NoRange\<rparr>)"
proof -
  have idx: "\<And>b. getBlockByChildNode (blocks s) (elementUnderMouse ev) = Some b \<Longrightarrow>
               indexOf (blocks s) b = int b"
    by (auto simp: getBlockByChildNode_def indexOf_def split: option.splits node.splits if_splits)
  show ?thesis
  proof (cases "isRectSelectionActivated s")
    case True
    then show ?thesis using assms idx
      by (auto simp: changingRectangle_def genInfoForMouseSelection_def Let_def after_geometry_def
          rectOutsideColumn_def split: option.splits)
  next
    case False
    then show ?thesis using assms idx
      by (auto simp: changingRectangle_def genInfoForMouseSelection_def Let_def after_geometry_def
          rectOutsideColumn_def split: option.splits)
  qed
qed

lemma changing_idle: "\<not> mousedown s \<Longrightarrow> changingRectangle ev s = Inr s"
  by (simp add: changingRectangle_def)

lemma timeout_frame:
  "runTimeout s =
     s\<lparr>scrollTop := scrollTop (runTimeout s), pendingTimeouts := pendingTimeouts (runTimeout s)\<rparr>"
  by (simp add: runTimeout_def scrollVertical_def scrollBy_def split: list.splits)

lemma timeout_blocks [simp]: "blocks (runTimeout s) = blocks s"
  by (subst timeout_frame) simp

lemma timeout_stack [simp]: "stackOfSelected (runTimeout s) = stackOfSelected s"
  by (subst timeout_frame) simp

lemma scroll_event_stack_inv:
  assumes "stack_inv (stackOfSelected s)" and "blocks s \<noteq> []"
  shows "\<exists>s'. changingRectangle ev s = Inr s' \<and> length (blocks s') = length (blocks s)
             \<and> stack_inv (stackOfSelected s')"
proof (cases "mousedown s")
  case False
  then show ?thesis using assms by (simp add: changing_idle)
next
  case True
  show ?thesis
  proof (cases "getBlockByChildNode (blocks s) (elementUnderMouse ev)")
    case None
    then show ?thesis using assms True by (simp add: changing_eq)
  next
    case (Some b)
    have "stack_inv (stackOfSelected (trySelectNextBlock (int b) (after_geometry ev s)))"
      using assms(1) by (intro try_stack_inv) simp_all
    then show ?thesis using assms True Some by (simp add: changing_eq)
  qed
qed

lemma event_stack_inv:
  assumes "stack_inv (stackOfSelected s)" and "blocks s \<noteq> []"
  shows "\<exists>s'. handle_drag_event e s = Inr s' \<and> length (blocks s') = length (blocks s)
             \<and> stack_inv (stackOfSelected s')"
proof (cases e)
  case (MouseMove v)
  from scroll_event_stack_inv[OF assms, of v] show ?thesis
    by (auto simp: handle_drag_event_def MouseMove processMouseMove_def)
next
  case (Scroll v)
  from scroll_event_stack_inv[OF assms, of v] show ?thesis
    by (auto simp: handle_drag_event_def Scroll processScroll_def)
next
  case Timeout
  then show ?thesis using assms by (simp add: handle_drag_event_def)
qed

lemma drag_stack_inv:
  "stack_inv (stackOfSelected s) \<Longrightarrow> blocks s \<noteq> [] \<Longrightarrow>
   \<exists>s'. drag_all es s = Inr s' \<and> stack_inv (stackOfSelected s')"
proof (induction es arbitrary: s)
  case Nil
  then show ?case by simp
next
  case (Cons e es)
  from event_stack_inv[OF Cons.prems] obtain s1 where
    s1: "handle_drag_event e s = Inr s1" and len: "length (blocks s1) = length (blocks s)"
    and inv: "stack_inv (stackOfSelected s1)" by blast
  from len Cons.prems(2) have "blocks s1 \<noteq> []" by auto
  from Cons.IH[OF inv this] s1 show ?case by simp
qed

lemma start_stack_inv:
  "stack_inv (stackOfSelected s) \<Longrightarrow> startSelection dv s = Inr s' \<Longrightarrow> stack_inv (stackOfSelected s')"
  by (auto simp: startSelection_def Let_def clearSelection_def stack_inv_def
      split: option.splits if_splits)


lemma move_outside:
  assumes "mousedown s" and "blocks s \<noteq> []" and "list_all (\<lambda>b. \<not> selected b) (blocks s)"
    and "rectOutsideColumn (startX s) ev"
  shows "\<exists>s'. processMouseMove ev s = Inr s' \<and> mousedown s' \<and> blocks s' = blocks s
             \<and> startX s' = startX s \<and> \<not> rectCrossesBlocks s'"
proof -
  let ?g = "after_geometry ev s"
  have g: "\<not> rectCrossesBlocks ?g" "blocks ?g = blocks s" "mousedown ?g" "startX ?g = startX s"
    using assms by simp_all
  show ?thesis
  proof (cases "getBlockByChildNode (blocks s) (elementUnderMouse ev)")
    case None
    then show ?thesis using assms g by (simp add: processMouseMove_def changing_eq)
  next
    case (Some b)
    let ?t = "trySelectNextBlock (int b) ?g"
    have tb: "blocks ?t = blocks s" using g by (simp add: try_no_cross)
    have "inverseSelection ?t = ?t"
      using tb g assms(3) by (intro inverse_nothing_selected) simp_all
    then show ?thesis using assms g Some tb by (simp add: processMouseMove_def changing_eq)
  qed
qed

lemma moves_outside:
  "mousedown s \<Longrightarrow> blocks s \<noteq> [] \<Longrightarrow> list_all (\<lambda>b. \<not> selected b) (blocks s) \<Longrightarrow>
   list_all (rectOutsideColumn (startX s)) evs \<Longrightarrow>
   \<exists>s'. processMouseMove_all evs s = Inr s' \<and> (evs \<noteq> [] \<longrightarrow> \<not> rectCrossesBlocks s')
        \<and> list_all (\<lambda>b. \<not> selected b) (blocks s')"
proof (induction evs arbitrary: s)
  case Nil
  then show ?case by simp
next
  case (Cons ev evs)
  from Cons.prems(4) have out: "rectOutsideColumn (startX s) ev"
    and rest: "list_all (rectOutsideColumn (startX s)) evs" by simp_all
  from move_outside[OF Cons.prems(1-3) out] obtain s1 where
    s1: "processMouseMove ev s = Inr s1" and md: "mousedown s1" and bl: "blocks s1 = blocks s"
    and sx: "startX s1 = startX s" and nc: "\<not> rectCrossesBlocks s1" by blast
  have ih: "\<exists>s'. processMouseMove_all evs s1 = Inr s' \<and> (evs \<noteq> [] \<longrightarrow> \<not> rectCrossesBlocks s')
        \<and> list_all (\<lambda>b. \<not> selected b) (blocks s')"
    using Cons.prems(2,3) rest md bl sx by (intro Cons.IH) simp_all
  show ?case
  proof (cases "evs = []")
    case True
    then show ?thesis using s1 nc bl Cons.prems(3) by simp
  next
    case False
    with ih s1 show ?thesis by auto
  qed
qed

text \<open>
  C4. Throughout a rectangle drag \<open>stackOfSelected\<close> is a contiguous run of adjacent
  block indices: whatever pointer moves, scroll events and autoscroll timeouts are
  handled, from a stack that is such a run the handlers do not fault and the stack is
  again such a run, going up when the direction read off its last two entries is "down"
  and going down when it is "up"; a pointer-down keeps the stack or empties it.
  Delivering the index on top of the stack changes
  nothing. On a direction reversal the stack splits into the entries kept and the
  entries popped: the popped ones are exactly those beyond the new index, they leave in
  reverse push order, and they are deselected on the way when \<open>rectCrossesBlocks\<close> holds.
\<close>

theorem stackOfSelected_contiguous_run:
  assumes "stack_inv (stackOfSelected s)" and "blocks s \<noteq> []" and "0 \<le> idx"
  shows "(\<exists>s'. drag_all es s = Inr s' \<and> stack_inv (stackOfSelected s')
            \<and> (direction_of (stackOfSelected s') = down \<longrightarrow> ascending (stackOfSelected s'))
            \<and> (direction_of (stackOfSelected s') = up \<longrightarrow> descending (stackOfSelected s')))
       \<and> (\<forall>s'. startSelection dv s = Inr s' \<longrightarrow> stack_inv (stackOfSelected s'))
       \<and> stack_inv (stackOfSelected (trySelectNextBlock idx s))
       \<and> (stackOfSelected s \<noteq> [] \<and> last (stackOfSelected s) = idx \<longrightarrow> trySelectNextBlock idx s = s)
       \<and> (reversal idx (stackOfSelected s) \<longrightarrow>
            (\<exists>kept popped. stackOfSelected s = kept @ popped
                \<and> stackOfSelected (trySelectNextBlock idx s) = kept
                \<and> list_all (beyond idx (stackOfSelected s)) popped
                \<and> list_all (\<lambda>v. \<not> beyond idx (stackOfSelected s) v) kept
                \<and> blocks (trySelectNextBlock idx s) =
                    (if rectCrossesBlocks s then fold unSelectBlockByIndex (rev popped) (blocks s)
                     else blocks s)))"
proof (intro conjI impI allI)
  from drag_stack_inv[OF assms(1,2)] obtain s' where
    "drag_all es s = Inr s'" "stack_inv (stackOfSelected s')" by blast
  then show "\<exists>s'. drag_all es s = Inr s' \<and> stack_inv (stackOfSelected s')
            \<and> (direction_of (stackOfSelected s') = down \<longrightarrow> ascending (stackOfSelected s'))
            \<and> (direction_of (stackOfSelected s') = up \<longrightarrow> descending (stackOfSelected s'))"
    using stack_inv_direction by blast
next
  fix s' assume "startSelection dv s = Inr s'"
  with assms(1) show "stack_inv (stackOfSelected s')" by (rule start_stack_inv)
next
  show "stack_inv (stackOfSelected (trySelectNextBlock idx s))"
    using assms(1,3) by (rule try_stack_inv)
next
  assume "stackOfSelected s \<noteq> [] \<and> last (stackOfSelected s) = idx"
  then show "trySelectNextBlock idx s = s" by (simp add: try_same)
next
  assume "reversal idx (stackOfSelected s)"
  with assms(1) show "\<exists>kept popped. stackOfSelected s = kept @ popped
                \<and> stackOfSelected (trySelectNextBlock idx s) = kept
                \<and> list_all (beyond idx (stackOfSelected s)) popped
                \<and> list_all (\<lambda>v. \<not> beyond idx (stackOfSelected s) v) kept
                \<and> blocks (trySelectNextBlock idx s) =
                    (if rectCrossesBlocks s then fold unSelectBlockByIndex (rev popped) (blocks s)
                     else blocks s)"
    by (rule try_reversal)
qed

lemma drag_rect_blocks: "blocks (drag_rect sx st) \<noteq> []"
proof -
  have "length (blocks (drag_rect sx st)) = 6"
    by (simp add: drag_rect_def idle_rect_def)
  then show ?thesis by auto
qed

lemma drag_rect_fields:
  "stackOfSelected (drag_rect sx st) = st"
  "rectCrossesBlocks (drag_rect sx st)" "mousedown (drag_rect sx st)"
  "startX (drag_rect sx st) = sx" "isRectSelectionActivated (drag_rect sx st)"
  by (simp_all add: drag_rect_def idle_rect_def)

theorem stackOfSelected_contiguous_run_witness:
  "stack_inv (stackOfSelected (drag_rect 500 [2, 3, 4]))
   \<and> reversal 3 (stackOfSelected (drag_rect 500 [2, 3, 4]))
   \<and> (\<exists>s'. drag_all [MouseMove (pointer_at 510 300 (InBlock 5)), Timeout,
                        Scroll (pointer_at 510 200 (InBlock 3))]
               (drag_rect 500 [2, 3, 4]) = Inr s'
             \<and> stack_inv (stackOfSelected s'))
   \<and> (\<exists>kept popped. stackOfSelected (drag_rect 500 [2, 3, 4]) = kept @ popped
         \<and> stackOfSelected (trySelectNextBlock 3 (drag_rect 500 [2, 3, 4])) = kept
         \<and> list_all (beyond 3 (stackOfSelected (drag_rect 500 [2, 3, 4]))) popped)"
proof -
  have h1: "stack_inv (stackOfSelected (drag_rect 500 [2, 3, 4]))"
    by (simp add: drag_rect_fields stack_inv_def)
  have h2: "blocks (drag_rect 500 [2, 3, 4]) \<noteq> []"
    by (rule drag_rect_blocks)
  have h3: "(0::int) \<le> 3" by simp
  have r: "reversal 3 (stackOfSelected (drag_rect 500 [2, 3, 4]))"
    by (simp add: drag_rect_fields reversal_def direction_of_def down_def up_def)
  note t = stackOfSelected_contiguous_run[OF h1 h2 h3,
      of "[MouseMove (pointer_at 510 300 (InBlock 5)), Timeout,
           Scroll (pointer_at 510 200 (InBlock 3))]"]
  from t have a: "\<exists>s'. drag_all [MouseMove (pointer_at 510 300 (InBlock 5)), Timeout,
                        Scroll (pointer_at 510 200 (InBlock 3))]
               (drag_rect 500 [2, 3, 4]) = Inr s' \<and> stack_inv (stackOfSelected s')"
    by blast
  from t r have b: "\<exists>kept popped. stackOfSelected (drag_rect 500 [2, 3, 4]) = kept @ popped
         \<and> stackOfSelected (trySelectNextBlock 3 (drag_rect 500 [2, 3, 4])) = kept
         \<and> list_all (beyond 3 (stackOfSelected (drag_rect 500 [2, 3, 4]))) popped"
    by blast
  from h1 r a b show ?thesis by (intro conjI)
qed

text \<open>
  C5 (as amended). During an active drag, after a pointer move that is not the first of
  the drag, \<open>rectCrossesBlocks\<close> is false iff the drag origin and the pointer lie outside
  the content column on the same side; after the first move of a drag it is false
  whatever the geometry. A drag that starts with no block selected and whose rectangle
  is outside the column, on either side, at every move keeps \<open>rectCrossesBlocks\<close> false
  and selects no block.
\<close>

theorem rectCrossesBlocks_geometry:
  assumes "mousedown s" and "blocks s \<noteq> []"
  shows "(\<exists>s'. changingRectangle ev s = Inr s'
            \<and> rectCrossesBlocks s' = (isRectSelectionActivated s \<and> \<not> rectOutsideColumn (startX s) ev))
       \<and> (list_all (\<lambda>b. \<not> selected b) (blocks s) \<and> list_all (rectOutsideColumn (startX s)) evs \<longrightarrow>
            (\<exists>s'. processMouseMove_all evs s = Inr s' \<and> (evs \<noteq> [] \<longrightarrow> \<not> rectCrossesBlocks s')
                \<and> list_all (\<lambda>b. \<not> selected b) (blocks s')))"
proof (intro conjI impI)
  show "\<exists>s'. changingRectangle ev s = Inr s'
            \<and> rectCrossesBlocks s' = (isRectSelectionActivated s \<and> \<not> rectOutsideColumn (startX s) ev)"
    by (cases "getBlockByChildNode (blocks s) (elementUnderMouse ev)")
      (simp_all add: changing_eq[OF assms])
next
  assume "list_all (\<lambda>b. \<not> selected b) (blocks s) \<and> list_all (rectOutsideColumn (startX s)) evs"
  then show "\<exists>s'. processMouseMove_all evs s = Inr s' \<and> (evs \<noteq> [] \<longrightarrow> \<not> rectCrossesBlocks s')
                \<and> list_all (\<lambda>b. \<not> selected b) (blocks s')"
    using assms by (intro moves_outside) simp_all
qed

theorem rectCrossesBlocks_geometry_witness:
  "(\<exists>s'. changingRectangle (pointer_at 900 300 (InBlock 2)) (drag_rect 500 [2]) = Inr s'
        \<and> rectCrossesBlocks s')
   \<and> (\<exists>s'. processMouseMove_all [pointer_at 100 300 (InBlock 2), pointer_at 150 400 (InBlock 3)]
              (pressed_rect 50) = Inr s'
          \<and> \<not> rectCrossesBlocks s' \<and> list_all (\<lambda>b. \<not> selected b) (blocks s'))"
proof -
  have h1: "mousedown (drag_rect 500 [2])" by (rule drag_rect_fields)
  have h2: "blocks (drag_rect 500 [2]) \<noteq> []" by (rule drag_rect_blocks)
  have g: "(isRectSelectionActivated (drag_rect 500 [2])
            \<and> \<not> rectOutsideColumn (startX (drag_rect 500 [2])) (pointer_at 900 300 (InBlock 2))) = True"
    by (simp add: drag_rect_fields rectOutsideColumn_def pointer_at_def)
  have k1: "mousedown (pressed_rect 50)" by (simp add: pressed_rect_def idle_rect_def)
  have k2: "blocks (pressed_rect 50) \<noteq> []" by (simp add: pressed_rect_def idle_rect_def)
  have k3: "list_all (\<lambda>b. \<not> selected b) (blocks (pressed_rect 50))
            \<and> list_all (rectOutsideColumn (startX (pressed_rect 50)))
                 [pointer_at 100 300 (InBlock 2), pointer_at 150 400 (InBlock 3)]"
    by (simp add: pressed_rect_def idle_rect_def plain_block_def list_all_iff
        rectOutsideColumn_def pointer_at_def)
  from rectCrossesBlocks_geometry[OF h1 h2, of "pointer_at 900 300 (InBlock 2)" "[]"]
  have a: "\<exists>s'. changingRectangle (pointer_at 900 300 (InBlock 2)) (drag_rect 500 [2]) = Inr s'
        \<and> rectCrossesBlocks s'"
    unfolding g by simp
  from rectCrossesBlocks_geometry[OF k1 k2, of "pointer_at 100 300 (InBlock 2)"
      "[pointer_at 100 300 (InBlock 2), pointer_at 150 400 (InBlock 3)]"] k3
  have b: "\<exists>s'. processMouseMove_all [pointer_at 100 300 (InBlock 2), pointer_at 150 400 (InBlock 3)]
              (pressed_rect 50) = Inr s'
          \<and> \<not> rectCrossesBlocks s' \<and> list_all (\<lambda>b. \<not> selected b) (blocks s')"
    by blast
  from a b show ?thesis by (rule conjI)
qed

text \<open>
  C5 as stated fails on the first move of a drag: with the origin (500) and the pointer
  (510) both inside the column 200..800, \<open>rectCrossesBlocks\<close> is false.
\<close>

theorem rectCrossesBlocks_first_move_counterexample:
  "crosses_after (changingRectangle (pointer_at 510 300 (InBlock 1)) (pressed_rect 500)) = Some False
   \<and> \<not> rectOutsideColumn (startX (pressed_rect 500)) (pointer_at 510 300 (InBlock 1))"
  by code_simp

lemma timeouts_after_drag_end:
  "\<not> mousedown t \<Longrightarrow> (runTimeout ^^ k) t = t\<lparr>pendingTimeouts := drop k (pendingTimeouts t)\<rparr>"
proof (induction k)
  case 0
  then show ?case by simp
next
  case (Suc k)
  let ?u = "t\<lparr>pendingTimeouts := drop k (pendingTimeouts t)\<rparr>"
  have "(runTimeout ^^ Suc k) t = runTimeout ?u" using Suc by simp
  also have "\<dots> = t\<lparr>pendingTimeouts := drop (Suc k) (pendingTimeouts t)\<rparr>"
  proof (cases "drop k (pendingTimeouts t)")
    case Nil
    then have "drop (Suc k) (pendingTimeouts t) = []" by simp
    with Nil show ?thesis by (simp add: runTimeout_def)
  next
    case (Cons sp rest)
    then have "drop (Suc k) (pendingTimeouts t) = rest"
      by (metis drop_Suc list.sel(3) tl_drop)
    with Cons Suc.prems show ?thesis by (simp add: runTimeout_def scrollVertical_def)
  qed
  finally show ?case .
qed

text \<open>
  C7 (as amended). After the drag has ended (\<open>mouseup\<close> or \<open>mouseleave\<close>) every pending
  autoscroll callback returns at its next run without scrolling and without scheduling
  itself again: running \<open>k\<close> callbacks only removes \<open>k\<close> pending timeouts. There is no
  reentrancy guard: every pointer move inside a scroll zone during a drag starts one
  more callback chain.
\<close>

theorem autoscroll_stops_after_drag_end:
  "(runTimeout ^^ k) (processMouseUp s) =
      (processMouseUp s)\<lparr>pendingTimeouts := drop k (pendingTimeouts s)\<rparr>
   \<and> (runTimeout ^^ k) (processMouseLeave s) =
      (processMouseLeave s)\<lparr>pendingTimeouts := drop k (pendingTimeouts s)\<rparr>
   \<and> length (pendingTimeouts (scrollByZones ev s)) =
      (if mousedown s \<and> (clientY ev < HEIGHT_OF_SCROLL_ZONE
                          \<or> innerHeight ev - clientY ev < HEIGHT_OF_SCROLL_ZONE)
       then Suc (length (pendingTimeouts s)) else length (pendingTimeouts s))"
proof (intro conjI)
  have "\<not> mousedown (processMouseUp s)"
    by (simp add: processMouseUp_def endSelection_def clearSelection_def)
  from timeouts_after_drag_end[OF this, of k]
  show "(runTimeout ^^ k) (processMouseUp s) =
      (processMouseUp s)\<lparr>pendingTimeouts := drop k (pendingTimeouts s)\<rparr>"
    by (simp add: processMouseUp_def endSelection_def clearSelection_def)
next
  have "\<not> mousedown (processMouseLeave s)"
    by (simp add: processMouseLeave_def endSelection_def clearSelection_def)
  from timeouts_after_drag_end[OF this, of k]
  show "(runTimeout ^^ k) (processMouseLeave s) =
      (processMouseLeave s)\<lparr>pendingTimeouts := drop k (pendingTimeouts s)\<rparr>"
    by (simp add: processMouseLeave_def endSelection_def clearSelection_def)
next
  show "length (pendingTimeouts (scrollByZones ev s)) =
      (if mousedown s \<and> (clientY ev < HEIGHT_OF_SCROLL_ZONE
                          \<or> innerHeight ev - clientY ev < HEIGHT_OF_SCROLL_ZONE)
       then Suc (length (pendingTimeouts s)) else length (pendingTimeouts s))"
    by (simp add: scrollByZones_def scrollVertical_def scrollBy_def Let_def)
qed

text \<open>
  C7 as stated fails: two pointer moves inside the bottom scroll zone during one drag
  leave two live callback chains.
\<close>

theorem autoscroll_reentrant_counterexample:
  "chains_after (processMouseMove_all [pointer_at 510 750 (InBlock 1), pointer_at 510 755 (InBlock 1)]
      (pressed_rect 500)) = Some 2"
  by code_simp




section \<open>Block events: Backspace, Delete, cut\<close>

lemma prev_of_current:
  assumes "currentBlock s = Some c" and "previousBlock s = Some p"
  shows "c = Suc p" and "c < length (blocks s)" and "currentBlockIndex s = int c"
  using assms by (auto simp: currentBlock_def previousBlock_def split: if_splits)

lemma nonempty_has_input: "\<not> isEmpty b \<Longrightarrow> inputs b \<noteq> []"
  by (auto simp: isEmpty_def)

text \<open>
  C2 (as amended). Backspace with a collapsed selection and the caret at the very start
  of the first input of the current block, the previous block being non-empty and not
  mergeable with the current one: when the current block is non-empty no block is
  deleted; when the current block is empty it is removed (the block count drops by
  one). In both cases the previous block becomes current and the caret goes to the end
  of its last input.
\<close>

theorem backspace_not_mergeable:
  assumes cur: "currentBlock s = Some c" and prev: "previousBlock s = Some p"
    and coll: "isCollapsed (nativeSelection s)"
    and inp: "currentInput (blocks s ! c) = Some i"
    and start: "isCaretAtStartOfInput s (blocks s ! c) i"
    and first: "firstInput (blocks s ! c) = Some i"
    and pne: "\<not> isEmpty (blocks s ! p)"
    and nm: "\<not> areBlocksMergeable (blocks s ! p) (blocks s ! c)"
  shows "(\<not> isEmpty (blocks s ! c) \<longrightarrow>
            blocks (backspace areBlocksMergeable s) =
              (blocks s)[p := (blocks s ! p)\<lparr>currentInput := lastInput (blocks s ! p)\<rparr>]
            \<and> length (blocks (backspace areBlocksMergeable s)) = length (blocks s))
       \<and> (isEmpty (blocks s ! c) \<longrightarrow>
            blocks (backspace areBlocksMergeable s) =
              (take c (blocks s) @ drop (Suc c) (blocks s))
                [p := (blocks s ! p)\<lparr>currentInput := lastInput (blocks s ! p)\<rparr>]
            \<and> Suc (length (blocks (backspace areBlocksMergeable s))) = length (blocks s))
       \<and> currentBlockIndex (backspace areBlocksMergeable s) = int p
       \<and> nativeSelection (backspace areBlocksMergeable s) =
            CaretAt (bid (blocks s ! p)) (length (inputs (blocks s ! p)) - 1)
              (length (last (inputs (blocks s ! p))))"
proof -
  note pc = prev_of_current[OF cur prev]
  let ?s1 = "s\<lparr>defaultPrevented := True, toolbarOpened := False\<rparr>"
  have p: "p < length (blocks s)" using pc by simp
  have ine: "inputs (blocks s ! p) \<noteq> []" using pne by (rule nonempty_has_input)
  then have li: "lastInput (blocks s ! p) = Some (length (inputs (blocks s ! p)) - 1)"
    by (simp add: lastInput_def)
  have lst: "inputs (blocks s ! p) ! (length (inputs (blocks s ! p)) - 1) = last (inputs (blocks s ! p))"
    using ine by (simp add: last_conv_nth)
  have "previousBlock ?s1 = previousBlock s"
    by (simp add: previousBlock_def)
  with prev have prev1: "previousBlock ?s1 = Some p"
    by simp
  show ?thesis
  proof (cases "isEmpty (blocks s ! c)")
    case False
    have "backspace areBlocksMergeable s = setToBlock p END ?s1"
      using cur prev1 coll inp start first pne nm False
      by (simp add: backspace_def Let_def)
    then show ?thesis using False p li lst
      by (simp add: setToBlock_def Let_def)
  next
    case True
    let ?s2 = "removeBlock c ?s1"
    have s2: "blocks ?s2 = take c (blocks s) @ drop (Suc c) (blocks s)"
      "currentBlockIndex ?s2 = int p"
      using pc by (simp_all add: removeBlock_def)
    have cb2: "currentBlock ?s2 = Some p"
      using s2 pc by (simp add: currentBlock_def)
    have "backspace areBlocksMergeable s = setToBlock p END ?s2"
      using cur prev1 coll inp start first pne True cb2
      by (simp add: backspace_def Let_def)
    moreover have "blocks ?s2 ! p = blocks s ! p" "p < length (blocks ?s2)"
      using s2 pc by (simp_all add: nth_append)
    ultimately show ?thesis using True li lst s2 pc
      by (simp add: setToBlock_def Let_def)
  qed
qed

theorem backspace_not_mergeable_witness:
  "block_count (backspace never_mergeable (two_blocks ''abc'' ''de'')) = 2
   \<and> nativeSelection (backspace never_mergeable (two_blocks ''abc'' ''de'')) = CaretAt 0 0 3
   \<and> currentBlockIndex (backspace never_mergeable (two_blocks ''abc'' ''de'')) = 0"
proof -
  let ?s = "two_blocks ''abc'' ''de''"
  have cur: "currentBlock ?s = Some 1" by (simp add: two_blocks_def currentBlock_def)
  have prev: "previousBlock ?s = Some 0" by (simp add: two_blocks_def previousBlock_def)
  have coll: "isCollapsed (nativeSelection ?s)" by (simp add: two_blocks_def isCollapsed_def)
  have inp: "currentInput (blocks ?s ! 1) = Some 0" by (simp add: two_blocks_def text_block_def)
  have start: "isCaretAtStartOfInput ?s (blocks ?s ! 1) 0"
    by (simp add: two_blocks_def text_block_def isCaretAtStartOfInput_def)
  have first: "firstInput (blocks ?s ! 1) = Some 0"
    by (simp add: two_blocks_def text_block_def firstInput_def)
  have pne: "\<not> isEmpty (blocks ?s ! 0)" by (simp add: two_blocks_def text_block_def isEmpty_def)
  have nm: "\<not> never_mergeable (blocks ?s ! 0) (blocks ?s ! 1)" by (simp add: never_mergeable_def)
  have cne: "\<not> isEmpty (blocks ?s ! 1)" by (simp add: two_blocks_def text_block_def isEmpty_def)
  note t = backspace_not_mergeable[where s = ?s and c = 1 and p = 0 and i = 0
      and areBlocksMergeable = never_mergeable, OF cur prev coll inp start first pne nm]
  from t cne have "length (blocks (backspace never_mergeable ?s)) = length (blocks ?s)" by blast
  then have a: "block_count (backspace never_mergeable ?s) = 2"
    by (simp add: block_count_def two_blocks_def)
  from t have b: "nativeSelection (backspace never_mergeable ?s) = CaretAt 0 0 3"
    by (simp add: two_blocks_def text_block_def)
  from t have c: "currentBlockIndex (backspace never_mergeable ?s) = 0" by simp
  from a b c show ?thesis by (intro conjI)
qed

text \<open>
  C2 as stated fails: with an empty current block after a non-empty previous block,
  Backspace removes the current block, two blocks become one.
\<close>

theorem backspace_empty_current_counterexample:
  "isEmpty (blocks (two_blocks ''abc'' '''') ! 1)
   \<and> block_count (two_blocks ''abc'' '''') = 2
   \<and> block_count (backspace never_mergeable (two_blocks ''abc'' '''')) = 1"
  by code_simp

text \<open>
  C9. Backspace with a collapsed selection and the caret at the very start of the
  current block's first input, the previous block existing and being empty: exactly the
  previous block is removed. The current block (content and \<open>selected\<close> flag) is the same
  block, now one position up, every other block is unchanged, and the caret stays
  where it was. (The handler also prevents the default action and closes the toolbar.)
\<close>

theorem backspace_removes_empty_previous:
  assumes cur: "currentBlock s = Some c" and prev: "previousBlock s = Some p"
    and coll: "isCollapsed (nativeSelection s)"
    and inp: "currentInput (blocks s ! c) = Some i"
    and start: "isCaretAtStartOfInput s (blocks s ! c) i"
    and first: "firstInput (blocks s ! c) = Some i"
    and pe: "isEmpty (blocks s ! p)"
    and ids: "distinct (map bid (blocks s))"
  shows "backspace areBlocksMergeable s =
           s\<lparr>defaultPrevented := True, toolbarOpened := False,
             blocks := take p (blocks s) @ drop (Suc p) (blocks s),
             currentBlockIndex := int p\<rparr>
       \<and> blocks (backspace areBlocksMergeable s) ! p = blocks s ! c
       \<and> currentBlock (backspace areBlocksMergeable s) = Some p
       \<and> nativeSelection (backspace areBlocksMergeable s) = nativeSelection s
       \<and> Suc (length (blocks (backspace areBlocksMergeable s))) = length (blocks s)"
proof -
  note pc = prev_of_current[OF cur prev]
  let ?s1 = "s\<lparr>defaultPrevented := True, toolbarOpened := False\<rparr>"
  have "previousBlock ?s1 = previousBlock s" by (simp add: previousBlock_def)
  with prev have prev1: "previousBlock ?s1 = Some p" by simp
  have "bid (blocks s ! p) \<noteq> bid (blocks s ! c)"
    using ids pc by (simp add: distinct_conv_nth)
  then have keep: "\<not> caretInBlock (nativeSelection s) (blocks s ! p)"
    using start by (simp add: isCaretAtStartOfInput_def caretInBlock_def)
  have eq: "backspace areBlocksMergeable s = removeBlock p ?s1"
    using cur prev1 coll inp start first pe by (simp add: backspace_def Let_def)
  have rm: "removeBlock p ?s1 =
           s\<lparr>defaultPrevented := True, toolbarOpened := False,
             blocks := take p (blocks s) @ drop (Suc p) (blocks s),
             currentBlockIndex := int p\<rparr>"
    using pc keep by (simp add: removeBlock_def)
  have nth: "(take p (blocks s) @ drop (Suc p) (blocks s)) ! p = blocks s ! c"
    using pc by (simp add: nth_append)
  show ?thesis
    using pc nth by (simp add: eq rm currentBlock_def)
qed

theorem backspace_removes_empty_previous_witness:
  "blocks (backspace never_mergeable (two_blocks '''' ''de'')) = [text_block 1 ''de'']
   \<and> nativeSelection (backspace never_mergeable (two_blocks '''' ''de'')) = CaretAt 1 0 0"
proof -
  let ?s = "two_blocks '''' ''de''"
  have cur: "currentBlock ?s = Some 1" by (simp add: two_blocks_def currentBlock_def)
  have prev: "previousBlock ?s = Some 0" by (simp add: two_blocks_def previousBlock_def)
  have coll: "isCollapsed (nativeSelection ?s)" by (simp add: two_blocks_def isCollapsed_def)
  have inp: "currentInput (blocks ?s ! 1) = Some 0" by (simp add: two_blocks_def text_block_def)
  have start: "isCaretAtStartOfInput ?s (blocks ?s ! 1) 0"
    by (simp add: two_blocks_def text_block_def isCaretAtStartOfInput_def)
  have first: "firstInput (blocks ?s ! 1) = Some 0"
    by (simp add: two_blocks_def text_block_def firstInput_def)
  have pe: "isEmpty (blocks ?s ! 0)" by (simp add: two_blocks_def text_block_def isEmpty_def)
  have ids: "distinct (map bid (blocks ?s))" by (simp add: two_blocks_def text_block_def)
  note t = backspace_removes_empty_previous[where s = ?s and c = 1 and p = 0 and i = 0
      and areBlocksMergeable = never_mergeable, OF cur prev coll inp start first pe ids]
  from t have "blocks (backspace never_mergeable ?s) = take 0 (blocks ?s) @ drop (Suc 0) (blocks ?s)"
    by simp
  then have a: "blocks (backspace never_mergeable ?s) = [text_block 1 ''de'']"
    by (simp add: two_blocks_def)
  from t have b: "nativeSelection (backspace never_mergeable ?s) = CaretAt 1 0 0"
    by (simp add: two_blocks_def)
  from a b show ?thesis by (rule conjI)
qed

text \<open>
  C3. Cut with at least one selected block: the handler itself only starts the copy and
  leaves the blocks and the caret as they are; the removal of the selected blocks runs
  when the copy promise is fulfilled, and when it is rejected nothing is removed,
  nothing inserted, the caret is not moved and the block selection is unchanged.
\<close>

theorem cut_waits_for_copy:
  assumes "anyBlockSelected s"
  shows "handleCommandX s = s\<lparr>cutAwaitsCopy := True\<rparr>
       \<and> blocks (handleCommandX s) = blocks s
       \<and> nativeSelection (handleCommandX s) = nativeSelection s
       \<and> copySettled Rejected (handleCommandX s) = s\<lparr>cutAwaitsCopy := False\<rparr>
       \<and> copySettled Fulfilled (handleCommandX s) = cutCallback (s\<lparr>cutAwaitsCopy := False\<rparr>)"
  using assms by (simp add: handleCommandX_def copySettled_def)

theorem cut_waits_for_copy_witness:
  "blocks (copySettled Rejected (handleCommandX selected_pair)) = blocks selected_pair
   \<and> nativeSelection (copySettled Rejected (handleCommandX selected_pair)) = NoRange
   \<and> map bid (blocks (copySettled Fulfilled (handleCommandX selected_pair))) = [0, 1]
   \<and> nativeSelection (copySettled Fulfilled (handleCommandX selected_pair)) = CaretAt 1 0 0"
proof -
  have h: "anyBlockSelected selected_pair"
    by (simp add: anyBlockSelected_def selected_pair_def text_block_def)
  note t = cut_waits_for_copy[OF h]
  from t have r: "copySettled Rejected (handleCommandX selected_pair) = selected_pair\<lparr>cutAwaitsCopy := False\<rparr>"
    by blast
  have a: "blocks (copySettled Rejected (handleCommandX selected_pair)) = blocks selected_pair"
    unfolding r by simp
  have b: "nativeSelection (copySettled Rejected (handleCommandX selected_pair)) = NoRange"
    unfolding r by (simp add: selected_pair_def)
  have c: "map bid (blocks (copySettled Fulfilled (handleCommandX selected_pair))) = [0, 1]"
    by code_simp
  have d: "nativeSelection (copySettled Fulfilled (handleCommandX selected_pair)) = CaretAt 1 0 0"
    by code_simp
  from a b c d show ?thesis by (intro conjI)
qed

text \<open>
  C6 does not hold of the code: with no current block and a collapsed selection the
  Delete handler faults on \<open>currentBlock.currentInput\<close>, where Backspace returns without
  any change.
\<close>

theorem delete_faults_without_current_block:
  "currentBlock no_current_block = None
   \<and> delete never_mergeable no_current_block = Inl TypeError
   \<and> backspace never_mergeable no_current_block = no_current_block"
  by (simp add: delete_def backspace_def currentBlock_def no_current_block_def isCollapsed_def)

end
